theory Spec2Isabelle
  imports Main "HOL-Library.Sublist"
begin

section \<open>JavaScript values and errors\<close>

text \<open>
  The values the handlers inspect: the result of \<^verbatim>\<open>JSON.parse\<close>, the fields of an
  error object, \<^verbatim>\<open>null\<close> and \<^verbatim>\<open>undefined\<close>. Numbers are restricted to integers.
\<close>

datatype jsval =
    JUndefined
  | JNull
  | JBool bool
  | JNum int
  | JStr string
  | JArr "jsval list"
  | JObj "(string \<times> jsval) list"

text \<open>JavaScript truthiness, as tested by \<^verbatim>\<open>!x\<close> and \<^verbatim>\<open>if (x)\<close>.\<close>

fun truthy :: "jsval \<Rightarrow> bool" where
  "truthy JUndefined = False"
| "truthy JNull = False"
| "truthy (JBool b) = b"
| "truthy (JNum n) = (n \<noteq> 0)"
| "truthy (JStr s) = (s \<noteq> [])"
| "truthy (JArr _) = True"
| "truthy (JObj _) = True"

text \<open>
  An error object. \<^verbatim>\<open>statusCode\<close> is the field the Cloud Files client sets,
  \<^verbatim>\<open>status\<close> the field the search client sets; a field that is not set reads as
  \<^verbatim>\<open>undefined\<close>.
\<close>

record js_error =
  message :: string
  statusCode :: jsval
  status :: jsval

definition mk_error :: "string \<Rightarrow> js_error" where
  "mk_error m = \<lparr>message = m, statusCode = JUndefined, status = JUndefined\<rparr>"

text \<open>Decimal rendering of a number inside a template string.\<close>

definition digit_char :: "nat \<Rightarrow> char" where
  "digit_char d = char_of (48 + d)"

function show_nat :: "nat \<Rightarrow> string" where
  "show_nat n = (if n < 10 then [digit_char n] else show_nat (n div 10) @ [digit_char (n mod 10)])"
  by pat_completeness auto
termination
  by (relation "measure id") auto

declare show_nat.simps [simp del]

section \<open>The connection module: the clients of the backing services\<close>

text \<open>
  \<^verbatim>\<open>src/storage/remote.js\<close> talks to a Cloud Files client (\<^verbatim>\<open>connection.client\<close>) and a
  search client (\<^verbatim>\<open>connection.elastic\<close>). Each client call is a function of the state
  \<open>'w\<close> of the outside world that returns what the call passes to its callback and the
  new state. The code of \<^verbatim>\<open>remote.js\<close> below is written against any such connection.
\<close>

datatype alias_action =
    Remove_alias string string
  | Add_alias string string

type_synonym field_mapping = "(string \<times> string \<times> string) list"

record 'w connection =
  conn_setup :: "'w \<Rightarrow> js_error option \<times> 'w"
  removeFile :: "string \<Rightarrow> string \<Rightarrow> 'w \<Rightarrow> js_error option \<times> 'w"
  getFiles :: "string \<Rightarrow> nat \<Rightarrow> string option \<Rightarrow> 'w \<Rightarrow> (js_error + string list) \<times> 'w"
  indices_create :: "string \<Rightarrow> bool \<Rightarrow> 'w \<Rightarrow> (js_error option \<times> nat) \<times> 'w"
  indices_putMapping :: "string \<Rightarrow> string \<Rightarrow> field_mapping \<Rightarrow> 'w \<Rightarrow> js_error option \<times> 'w"
  indices_updateAliases :: "alias_action list \<Rightarrow> 'w \<Rightarrow> js_error option \<times> 'w"
  indices_get :: "string \<Rightarrow> 'w \<Rightarrow> (js_error + string list) \<times> 'w"
  indices_delete :: "string \<Rightarrow> 'w \<Rightarrow> js_error option \<times> 'w"
  elastic_delete :: "string \<Rightarrow> string \<Rightarrow> string \<Rightarrow> 'w \<Rightarrow> js_error option \<times> 'w"

text \<open>
  The parts of the runtime and of the configuration that the code calls:
  \<^verbatim>\<open>config.contentContainer()\<close>, \<^verbatim>\<open>encodeURIComponent\<close>, \<^verbatim>\<open>decodeURIComponent\<close> (which
  throws a \<^verbatim>\<open>URIError\<close> on a malformed escape: \<open>None\<close>), and of the \<^verbatim>\<open>path\<close> module
  \<^verbatim>\<open>path.dirname(p)\<close>, \<^verbatim>\<open>path.basename(p)\<close> and \<^verbatim>\<open>path.basename(p, ext)\<close>, and the
  string that a number becomes (\<^verbatim>\<open>Number.prototype.toString\<close>, which switches to the
  exponent form for large numbers).
\<close>

record runtime =
  contentContainer :: string
  encodeURIComponent :: "string \<Rightarrow> string"
  decodeURIComponent :: "string \<Rightarrow> string option"
  dirname :: "string \<Rightarrow> string"
  basename :: "string \<Rightarrow> string"
  basename_ext :: "string \<Rightarrow> string \<Rightarrow> string"
  numberToString :: "int \<Rightarrow> string"

section \<open>src/storage/remote.js\<close>

subsection \<open>deleteContent and unindexContent\<close>

definition deleteContent ::
  "'w connection \<Rightarrow> runtime \<Rightarrow> string \<Rightarrow> 'w \<Rightarrow> js_error option \<times> 'w" where
  "deleteContent conn rt contentID w =
     (case removeFile conn (contentContainer rt) (encodeURIComponent rt contentID) w of
        (err, w') \<Rightarrow>
          (case err of
             Some e \<Rightarrow> if statusCode e = JNum 404 then (None, w') else (err, w')
           | None \<Rightarrow> (err, w')))"

definition unindexContent ::
  "'w connection \<Rightarrow> string \<Rightarrow> 'w \<Rightarrow> js_error option \<times> 'w" where
  "unindexContent conn contentID w =
     (case elastic_delete conn ''envelopes_current'' ''envelope'' contentID w of
        (err, w') \<Rightarrow>
          (case err of
             Some e \<Rightarrow> if status e = JStr ''404'' then (None, w') else (err, w')
           | None \<Rightarrow> (err, w')))"

subsection \<open>listContent\<close>






subsection \<open>createNewIndex, makeIndexActive and RemoteStorage.prototype.setup\<close>

definition envelopeMapping :: field_mapping where
  "envelopeMapping =
     [(''title'', ''string'', ''analyzed''),
      (''body'', ''string'', ''analyzed''),
      (''keywords'', ''string'', ''analyzed''),
      (''categories'', ''string'', ''not_analyzed'')]"

definition createNewIndex ::
  "'w connection \<Rightarrow> string \<Rightarrow> 'w \<Rightarrow> js_error option \<times> 'w" where
  "createNewIndex conn indexName w =
     (case indices_create conn indexName False w of
        ((Some err, _), w1) \<Rightarrow> (Some err, w1)
      | ((None, _), w1) \<Rightarrow> indices_putMapping conn indexName ''envelope'' envelopeMapping w1)"

text \<open>
  \<^verbatim>\<open>async.each\<close> starts the deletion of every name before any of them has answered, and
  calls back with an error if one of them failed, with no error once all have succeeded.
\<close>

fun each_delete :: "'w connection \<Rightarrow> string list \<Rightarrow> 'w \<Rightarrow> js_error option \<times> 'w" where
  "each_delete conn [] w = (None, w)"
| "each_delete conn (name # names) w =
     (case indices_delete conn name w of
        (e, w1) \<Rightarrow>
          (case each_delete conn names w1 of
             (e', w2) \<Rightarrow> ((case e of Some x \<Rightarrow> Some x | None \<Rightarrow> e'), w2)))"

definition makeIndexActive ::
  "'w connection \<Rightarrow> string \<Rightarrow> 'w \<Rightarrow> js_error option \<times> 'w" where
  "makeIndexActive conn indexName w =
     (case indices_updateAliases conn
             [Remove_alias ''*'' ''envelopes_current'',
              Add_alias indexName ''envelopes_current''] w of
        (Some err, w1) \<Rightarrow> (Some err, w1)
      | (None, w1) \<Rightarrow>
          (case indices_get conn ''envelopes*'' w1 of
             (Inl err, w2) \<Rightarrow> (Some err, w2)
           | (Inr response, w2) \<Rightarrow>
               each_delete conn (filter (\<lambda>n. n \<noteq> indexName) response) w2))"

text \<open>\<open>now\<close> is the value of \<^verbatim>\<open>Date.now()\<close> when the latch has been acquired.\<close>

definition remote_setup :: "'w connection \<Rightarrow> nat \<Rightarrow> 'w \<Rightarrow> js_error option \<times> 'w" where
  "remote_setup conn now w =
     (case conn_setup conn w of
        (Some err, w1) \<Rightarrow> (Some err, w1)
      | (None, w1) \<Rightarrow>
          (case indices_create conn ''latch'' True w1 of
             ((Some err, _), w2) \<Rightarrow> (Some err, w2)
           | ((None, st), w2) \<Rightarrow>
               if st = 400 then (None, w2)
               else
                 (let indexName = ''envelopes_'' @ show_nat now in
                  case createNewIndex conn indexName w2 of
                    (Some err, w3) \<Rightarrow> (Some err, w3)
                  | (None, w3) \<Rightarrow> makeIndexActive conn indexName w3)))"

section \<open>A model of the backing services\<close>

text \<open>
  The Cloud Files container and the search engine are outside the repository. The world
  below is a small model of them, enough to say what a sequence of client calls leaves
  behind: the object names of the content container, the search indices with their
  aliases, the indexed documents, and the log of the requests received. A request whose
  position in the log is marked in \<open>outage\<close> fails with a 503 and changes nothing.

  The search client reports the HTTP status of a failed request in the field
  \<^verbatim>\<open>status\<close> of the error, as a string; the Cloud Files client reports it in
  \<^verbatim>\<open>statusCode\<close>, as a number. The third argument of the callback of
  \<^verbatim>\<open>indices.create\<close> is the numeric status of the response.
\<close>

datatype request =
    Req_setup
  | Req_removeFile string string
  | Req_getFiles string nat "string option"
  | Req_create string bool
  | Req_putMapping string string field_mapping
  | Req_updateAliases "alias_action list"
  | Req_get string
  | Req_delete_index string
  | Req_delete_doc string string string

record world =
  files :: "string list"
  indices :: "(string \<times> string list) list"
  docs :: "(string \<times> string) list"
  requests :: "request list"
  outage :: "nat \<Rightarrow> bool"

definition log_req :: "request \<Rightarrow> world \<Rightarrow> world" where
  "log_req r w = w\<lparr>requests := requests w @ [r]\<rparr>"

definition down :: "world \<Rightarrow> bool" where
  "down w = outage w (length (requests w))"

definition es_error :: "string \<Rightarrow> js_error" where
  "es_error code = \<lparr>message = ''search engine error'', statusCode = JUndefined, status = JStr code\<rparr>"

definition cf_error :: "int \<Rightarrow> js_error" where
  "cf_error code = \<lparr>message = ''Cloud Files error'', statusCode = JNum code, status = JUndefined\<rparr>"

text \<open>An index expression: a name, or a prefix followed by \<^verbatim>\<open>*\<close>.\<close>

definition matches :: "string \<Rightarrow> string \<Rightarrow> bool" where
  "matches pat name =
     (if pat \<noteq> [] \<and> last pat = CHR ''*'' then prefix (butlast pat) name else pat = name)"

definition index_names :: "world \<Rightarrow> string list" where
  "index_names w = map fst (indices w)"

definition alias_holders :: "string \<Rightarrow> world \<Rightarrow> string list" where
  "alias_holders a w = map fst (filter (\<lambda>(n, as). a \<in> set as) (indices w))"

definition generations :: "world \<Rightarrow> string list" where
  "generations w = filter (matches ''envelopes*'') (index_names w)"

fun str_less :: "string \<Rightarrow> string \<Rightarrow> bool" where
  "str_less [] [] = False"
| "str_less [] (y # ys) = True"
| "str_less (x # xs) [] = False"
| "str_less (x # xs) (y # ys) =
     ((of_char x :: nat) < of_char y \<or> (x = y \<and> str_less xs ys))"

definition w_conn_setup :: "world \<Rightarrow> js_error option \<times> world" where
  "w_conn_setup w =
     (if down w then (Some (es_error ''503''), log_req Req_setup w)
      else (None, log_req Req_setup w))"

definition w_removeFile :: "string \<Rightarrow> string \<Rightarrow> world \<Rightarrow> js_error option \<times> world" where
  "w_removeFile container name w =
     (let w1 = log_req (Req_removeFile container name) w in
      if down w then (Some (cf_error 503), w1)
      else if name \<in> set (files w) then (None, w1\<lparr>files := removeAll name (files w)\<rparr>)
      else (Some (cf_error 404), w1))"

definition w_getFiles ::
  "string \<Rightarrow> nat \<Rightarrow> string option \<Rightarrow> world \<Rightarrow> (js_error + string list) \<times> world" where
  "w_getFiles container limit marker w =
     (let w1 = log_req (Req_getFiles container limit marker) w in
      if down w then (Inl (cf_error 503), w1)
      else
        (case marker of
           None \<Rightarrow> (Inr (take limit (files w)), w1)
         | Some m \<Rightarrow> (Inr (take limit (filter (str_less m) (files w))), w1)))"

definition w_indices_create ::
  "string \<Rightarrow> bool \<Rightarrow> world \<Rightarrow> (js_error option \<times> nat) \<times> world" where
  "w_indices_create name ignore400 w =
     (let w1 = log_req (Req_create name ignore400) w in
      if down w then ((Some (es_error ''503''), 503), w1)
      else if name \<in> set (index_names w) then
        (if ignore400 then ((None, 400), w1) else ((Some (es_error ''400''), 400), w1))
      else ((None, 200), w1\<lparr>indices := indices w @ [(name, [])]\<rparr>))"

definition w_indices_putMapping ::
  "string \<Rightarrow> string \<Rightarrow> field_mapping \<Rightarrow> world \<Rightarrow> js_error option \<times> world" where
  "w_indices_putMapping name ty m w =
     (let w1 = log_req (Req_putMapping name ty m) w in
      if down w then (Some (es_error ''503''), w1)
      else if name \<in> set (index_names w) then (None, w1)
      else (Some (es_error ''404''), w1))"

fun apply_action ::
  "alias_action \<Rightarrow> (string \<times> string list) list \<Rightarrow> (string \<times> string list) list option" where
  "apply_action (Remove_alias pat a) ixs =
     Some (map (\<lambda>(n, as). if matches pat n then (n, removeAll a as) else (n, as)) ixs)"
| "apply_action (Add_alias name a) ixs =
     (if name \<in> set (map fst ixs)
      then Some (map (\<lambda>(n, as). if n = name then (n, a # removeAll a as) else (n, as)) ixs)
      else None)"

fun apply_actions ::
  "alias_action list \<Rightarrow> (string \<times> string list) list \<Rightarrow> (string \<times> string list) list option" where
  "apply_actions [] ixs = Some ixs"
| "apply_actions (a # as) ixs =
     (case apply_action a ixs of None \<Rightarrow> None | Some ixs' \<Rightarrow> apply_actions as ixs')"

text \<open>All the actions of one request take effect together, or none does.\<close>

definition w_indices_updateAliases :: "alias_action list \<Rightarrow> world \<Rightarrow> js_error option \<times> world" where
  "w_indices_updateAliases actions w =
     (let w1 = log_req (Req_updateAliases actions) w in
      if down w then (Some (es_error ''503''), w1)
      else
        (case apply_actions actions (indices w) of
           None \<Rightarrow> (Some (es_error ''404''), w1)
         | Some ixs \<Rightarrow> (None, w1\<lparr>indices := ixs\<rparr>)))"

text \<open>An index expression is resolved against the names of the indices and of their aliases.\<close>

definition w_indices_get :: "string \<Rightarrow> world \<Rightarrow> (js_error + string list) \<times> world" where
  "w_indices_get pat w =
     (let w1 = log_req (Req_get pat) w in
      if down w then (Inl (es_error ''503''), w1)
      else
        (Inr (map fst (filter (\<lambda>(n, as). matches pat n \<or> list_ex (matches pat) as) (indices w))),
         w1))"

definition w_indices_delete :: "string \<Rightarrow> world \<Rightarrow> js_error option \<times> world" where
  "w_indices_delete name w =
     (let w1 = log_req (Req_delete_index name) w in
      if down w then (Some (es_error ''503''), w1)
      else if name \<in> set (index_names w) then
        (None, w1\<lparr>indices := filter (\<lambda>(n, as). n \<noteq> name) (indices w),
                  docs := filter (\<lambda>(n, d). n \<noteq> name) (docs w)\<rparr>)
      else (Some (es_error ''404''), w1))"

definition w_elastic_delete ::
  "string \<Rightarrow> string \<Rightarrow> string \<Rightarrow> world \<Rightarrow> js_error option \<times> world" where
  "w_elastic_delete ix ty docid w =
     (let w1 = log_req (Req_delete_doc ix ty docid) w;
          targets = map fst (filter (\<lambda>(n, as). n = ix \<or> ix \<in> set as) (indices w)) in
      if down w then (Some (es_error ''503''), w1)
      else if list_ex (\<lambda>(n, d). n \<in> set targets \<and> d = docid) (docs w) then
        (None, w1\<lparr>docs := filter (\<lambda>(n, d). \<not> (n \<in> set targets \<and> d = docid)) (docs w)\<rparr>)
      else (Some (es_error ''404''), w1))"

definition services :: "world connection" where
  "services =
     \<lparr>conn_setup = w_conn_setup,
      removeFile = w_removeFile,
      getFiles = w_getFiles,
      indices_create = w_indices_create,
      indices_putMapping = w_indices_putMapping,
      indices_updateAliases = w_indices_updateAliases,
      indices_get = w_indices_get,
      indices_delete = w_indices_delete,
      elastic_delete = w_elastic_delete\<rparr>"

section \<open>The storage facade\<close>

text \<open>
  The routes call the module \<^verbatim>\<open>src/storage\<close>. In \<^verbatim>\<open>remove.js\<close> each call is a function
  of the state \<open>'s\<close> of the store that returns what the call passes to its callback and
  the new state; the code is written against any such facade.
\<close>

record 's storage =
  deleteStagingEnvelope :: "string \<Rightarrow> 's \<Rightarrow> js_error option \<times> 's"
  bulkDeleteStagingEnvelopes :: "string list \<Rightarrow> 's \<Rightarrow> js_error option \<times> 's"
  unindexStagingEnvelope :: "string \<Rightarrow> 's \<Rightarrow> js_error option \<times> 's"
  bulkUnindexStagingEnvelopes :: "string list \<Rightarrow> 's \<Rightarrow> js_error option \<times> 's"

section \<open>src/routes/staging\_content/remove.js\<close>

definition kvDelete :: "'s storage \<Rightarrow> string list \<Rightarrow> 's \<Rightarrow> js_error option \<times> 's" where
  "kvDelete st contentIDs s =
     (if length contentIDs = 1 then deleteStagingEnvelope st (contentIDs ! 0) s
      else bulkDeleteStagingEnvelopes st contentIDs s)"

definition ftsDelete :: "'s storage \<Rightarrow> string list \<Rightarrow> 's \<Rightarrow> js_error option \<times> 's" where
  "ftsDelete st contentIDs s =
     (if length contentIDs = 1 then unindexStagingEnvelope st (contentIDs ! 0) s
      else bulkUnindexStagingEnvelopes st contentIDs s)"

text \<open>
  \<^verbatim>\<open>async.parallel\<close> starts both deletions and calls back with the first error that
  arrives, with no error once both have succeeded. When both deletions fail, the error
  that is reported is the one of the deletion that answers first, which the code does not
  decide: it is a parameter. With an empty list the callback is handed to
  \<^verbatim>\<open>process.nextTick\<close>, which calls it with no argument.
\<close>

datatype answer_order = Kv_answers_first | Fts_answers_first

definition first_error ::
  "answer_order \<Rightarrow> js_error option \<Rightarrow> js_error option \<Rightarrow> js_error option" where
  "first_error ord e1 e2 =
     (case ord of
        Kv_answers_first \<Rightarrow> (case e1 of Some x \<Rightarrow> Some x | None \<Rightarrow> e2)
      | Fts_answers_first \<Rightarrow> (case e2 of Some x \<Rightarrow> Some x | None \<Rightarrow> e1))"

definition removeStagingEnvelopes ::
  "answer_order \<Rightarrow> 's storage \<Rightarrow> string list \<Rightarrow> 's \<Rightarrow> js_error option \<times> 's" where
  "removeStagingEnvelopes ord st contentIDs s =
     (if length contentIDs = 0 then (None, s)
      else
        (case kvDelete st contentIDs s of
           (e1, s1) \<Rightarrow>
             (case ftsDelete st contentIDs s1 of
                (e2, s2) \<Rightarrow> (first_error ord e1 e2, s2))))"

text \<open>The names that \<^verbatim>\<open>remove.js\<close> exports.\<close>

definition remove_exports :: "string list" where
  "remove_exports = [''handler'', ''removeStagingEnvelopes'']"

text \<open>A facade that only records the calls it receives.\<close>

datatype storage_call =
    Call_delete string
  | Call_bulkDelete "string list"
  | Call_unindex string
  | Call_bulkUnindex "string list"

definition recording :: "storage_call list storage" where
  "recording =
     \<lparr>deleteStagingEnvelope = (\<lambda>i s. (None, s @ [Call_delete i])),
      bulkDeleteStagingEnvelopes = (\<lambda>is s. (None, s @ [Call_bulkDelete is])),
      unindexStagingEnvelope = (\<lambda>i s. (None, s @ [Call_unindex i])),
      bulkUnindexStagingEnvelopes = (\<lambda>is s. (None, s @ [Call_bulkUnindex is]))\<rparr>"

section \<open>src/routes/staging\_content/bulk.js\<close>

subsection \<open>State of one request\<close>

text \<open>
  The handler is event-driven: the archive decoder, the entry streams, the upload queue
  and the store call back into it in an order it does not control. Its state is the
  variables of the closure (\<^verbatim>\<open>contentIDBase\<close>, \<^verbatim>\<open>envelopeCount\<close>, \<^verbatim>\<open>failureCount\<close>,
  \<^verbatim>\<open>deletionCount\<close>, \<^verbatim>\<open>toKeep\<close>), the state of \<^verbatim>\<open>uploadQueue\<close> (waiting tasks, number of
  running workers, the \<^verbatim>\<open>drain\<close> callback), the calls of \<^verbatim>\<open>storeStagingEnvelope\<close> that
  have been started, the entry streams still being read, and what the handler has done
  to the outside: responses sent, calls of \<^verbatim>\<open>next\<close>, errors reported, exceptions
  thrown and not caught. \<open>finish_calls\<close> counts the invocations of \<^verbatim>\<open>finishRequest\<close>.
\<close>

datatype op_state = Pending | Done "js_error option"

record par_state =
  p_task :: "string \<times> jsval"
  store_op :: op_state
  index_op :: op_state
  called :: bool

datatype stream_kind = Config_stream | Keep_stream | Envelope_stream string

datatype decoder_state = Decoding | Finished | Failed | Stalled

datatype drain_cb = Noop | FinishRequest

datatype recon_state = Not_started | Listing jsval | Removing "string list" | Recon_done

datatype body = Report nat nat nat | Error_body js_error

datatype exn = TypeError string | URIError | Unhandled_error js_error

record handler =
  contentIDBase :: jsval
  envelopeCount :: nat
  failureCount :: nat
  deletionCount :: nat
  toKeep :: "string list"
  q_tasks :: "(string \<times> jsval) list"
  q_workers :: nat
  q_drain :: drain_cb
  par :: "par_state list"
  streams :: "(stream_kind \<times> string) list"
  decoder :: decoder_state
  recon :: recon_state
  sent :: "(nat \<times> body) list"
  nexts :: "js_error option list"
  reported :: "(string option \<times> string \<times> bool) list"
  uncaught :: "exn list"
  finish_calls :: nat

definition init :: handler where
  "init =
     \<lparr>contentIDBase = JNull, envelopeCount = 0, failureCount = 0, deletionCount = 0,
      toKeep = [], q_tasks = [], q_workers = 0, q_drain = Noop, par = [], streams = [],
      decoder = Decoding, recon = Not_started, sent = [], nexts = [], reported = [],
      uncaught = [], finish_calls = 0\<rparr>"

subsection \<open>The object toKeep\<close>

text \<open>
  \<^verbatim>\<open>toKeep\<close> is a plain object used as a set: \<^verbatim>\<open>toKeep[id] = true\<close> adds an own
  property, except for the key \<^verbatim>\<open>__proto__\<close>, where the assignment of a primitive does
  nothing; \<^verbatim>\<open>toKeep[id]\<close> reads an own property or, failing that, a property of
  \<^verbatim>\<open>Object.prototype\<close>, all of which are truthy.
\<close>

definition object_prototype_names :: "string list" where
  "object_prototype_names =
     [''constructor'', ''__defineGetter__'', ''__defineSetter__'', ''hasOwnProperty'',
      ''__lookupGetter__'', ''__lookupSetter__'', ''isPrototypeOf'', ''propertyIsEnumerable'',
      ''toString'', ''valueOf'', ''__proto__'', ''toLocaleString'']"

definition add_key :: "string \<Rightarrow> string list \<Rightarrow> string list" where
  "add_key k ks = (if k = ''__proto__'' \<or> k \<in> set ks then ks else ks @ [k])"

definition kept :: "string list \<Rightarrow> string \<Rightarrow> bool" where
  "kept ks k = (k \<in> set ks \<or> k \<in> set object_prototype_names)"

text \<open>The string a value becomes when it is used as a property key.\<close>

definition show_int :: "int \<Rightarrow> string" where
  "show_int n = (if n < 0 then ''-'' @ show_nat (nat (- n)) else show_nat (nat n))"

fun join_comma :: "string list \<Rightarrow> string" where
  "join_comma [] = []"
| "join_comma [x] = x"
| "join_comma (x # y # ys) = x @ '','' @ join_comma (y # ys)"

fun to_key :: "runtime \<Rightarrow> jsval \<Rightarrow> string"
  and element_string :: "runtime \<Rightarrow> jsval \<Rightarrow> string" where
  "to_key rt JUndefined = ''undefined''"
| "to_key rt JNull = ''null''"
| "to_key rt (JBool b) = (if b then ''true'' else ''false'')"
| "to_key rt (JNum n) = numberToString rt n"
| "to_key rt (JStr s) = s"
| "to_key rt (JArr xs) = join_comma (map (element_string rt) xs)"
| "to_key rt (JObj kvs) = ''[object Object]''"
| "element_string rt JUndefined = []"
| "element_string rt JNull = []"
| "element_string rt (JBool b) = to_key rt (JBool b)"
| "element_string rt (JNum n) = to_key rt (JNum n)"
| "element_string rt (JStr s) = to_key rt (JStr s)"
| "element_string rt (JArr xs) = join_comma (map (element_string rt) xs)"
| "element_string rt (JObj kvs) = to_key rt (JObj kvs)"

text \<open>
  Reading the property \<open>k\<close> of a parsed value, for a key that no prototype defines:
  on \<^verbatim>\<open>null\<close> it throws a \<^verbatim>\<open>TypeError\<close>, on an object it gives the own property or
  \<^verbatim>\<open>undefined\<close>, on anything else \<^verbatim>\<open>undefined\<close>.
\<close>

fun get_prop :: "jsval \<Rightarrow> string \<Rightarrow> exn + jsval" where
  "get_prop JNull k = Inl (TypeError ''Cannot read property of null'')"
| "get_prop JUndefined k = Inl (TypeError ''Cannot read property of undefined'')"
| "get_prop (JObj kvs) k = Inr (case map_of kvs k of Some v \<Rightarrow> v | None \<Rightarrow> JUndefined)"
| "get_prop _ k = Inr JUndefined"

definition error_of :: "exn \<Rightarrow> js_error" where
  "error_of x =
     (case x of
        TypeError m \<Rightarrow> mk_error m
      | URIError \<Rightarrow> mk_error ''URI malformed''
      | Unhandled_error err \<Rightarrow> err)"

subsection \<open>reportError, reportCompletion and the reconciliation\<close>

text \<open>
  \<^verbatim>\<open>reportError\<close> logs the error with the path of the entry (\<open>None\<close> for \<^verbatim>\<open>null\<close>) and
  the description, and hands a fatal one to \<^verbatim>\<open>next\<close> with status 400.
\<close>

definition reportError ::
  "js_error \<Rightarrow> string option \<Rightarrow> string \<Rightarrow> bool \<Rightarrow> handler \<Rightarrow> handler" where
  "reportError err entryPath description fatal s =
     (let s1 = s\<lparr>reported := reported s @ [(entryPath, description, fatal)]\<rparr> in
      if fatal then s1\<lparr>nexts := nexts s1 @ [Some (err\<lparr>statusCode := JNum 400\<rparr>)]\<rparr> else s1)"

definition reportCompletion :: "handler \<Rightarrow> handler" where
  "reportCompletion s =
     (let statusCode = (if failureCount s = 0 then 200 else 500) in
      s\<lparr>sent := sent s @ [(statusCode, Report (envelopeCount s) (failureCount s) (deletionCount s))],
        nexts := nexts s @ [None]\<rparr>)"

text \<open>
  \<^verbatim>\<open>bulk.js\<close> binds \<^verbatim>\<open>removeEnvelopes\<close> to \<^verbatim>\<open>require('./remove').removeEnvelopes\<close>: the
  property of that name of the exports of \<^verbatim>\<open>remove.js\<close>, or \<^verbatim>\<open>undefined\<close>.
\<close>

definition removeEnvelopes_bound :: bool where
  "removeEnvelopes_bound = (''removeEnvelopes'' \<in> set remove_exports)"

definition toDelete_of :: "string list \<Rightarrow> string list \<Rightarrow> string list" where
  "toDelete_of existingContentIDs ks = filter (\<lambda>id. \<not> kept ks id) existingContentIDs"

text \<open>
  The callback that \<^verbatim>\<open>finishRequest\<close> gives to \<^verbatim>\<open>removeDeletedStagingContent\<close>.
\<close>

definition removal_done :: "js_error option \<Rightarrow> handler \<Rightarrow> handler" where
  "removal_done err s =
     (case err of
        Some e \<Rightarrow> reportCompletion (reportError e None ''deleted content removal'' True s)
      | None \<Rightarrow> reportCompletion s)"

text \<open>
  \<^verbatim>\<open>removeDeletedStagingContent\<close> either calls back at once, when no \<^verbatim>\<open>contentIDBase\<close> has
  been captured, or starts the listing of the stored envelopes under the prefix.
\<close>

definition removeDeletedStagingContent :: "handler \<Rightarrow> handler" where
  "removeDeletedStagingContent s =
     (if \<not> truthy (contentIDBase s) then removal_done None s
      else s\<lparr>recon := Listing (contentIDBase s)\<rparr>)"

definition finishRequest :: "handler \<Rightarrow> handler" where
  "finishRequest s = removeDeletedStagingContent (s\<lparr>finish_calls := Suc (finish_calls s)\<rparr>)"

text \<open>
  The listing has ended, with an error or with the contentIDs it has delivered. Calling
  \<^verbatim>\<open>removeEnvelopes\<close> when it is \<^verbatim>\<open>undefined\<close> throws a \<^verbatim>\<open>TypeError\<close> that nothing
  catches.
\<close>

definition listing_done :: "js_error + string list \<Rightarrow> handler \<Rightarrow> handler" where
  "listing_done r s =
     (case r of
        Inl err \<Rightarrow> removal_done (Some err) (s\<lparr>recon := Recon_done\<rparr>)
      | Inr existingContentIDs \<Rightarrow>
          (let toDelete = toDelete_of existingContentIDs (toKeep s);
               s1 = s\<lparr>deletionCount := length toDelete\<rparr> in
           if removeEnvelopes_bound then s1\<lparr>recon := Removing toDelete\<rparr>
           else s1\<lparr>recon := Recon_done,
                   uncaught := uncaught s1 @ [TypeError ''removeEnvelopes is not a function'']\<rparr>))"

definition envelopes_removed :: "js_error option \<Rightarrow> handler \<Rightarrow> handler" where
  "envelopes_removed err s = removal_done err (s\<lparr>recon := Recon_done\<rparr>)"

subsection \<open>The upload queue and envelopeStagingWorker\<close>

text \<open>
  \<^verbatim>\<open>async.queue(worker, 10)\<close>: \<^verbatim>\<open>push\<close> appends the task and defers \<^verbatim>\<open>process\<close>;
  \<^verbatim>\<open>process\<close> starts waiting tasks while fewer than ten workers run; \<^verbatim>\<open>running()\<close> is
  the number of running workers; when a worker calls back, the number goes down by one,
  \<^verbatim>\<open>drain\<close> is called if nothing waits and nothing runs, and \<^verbatim>\<open>process\<close> runs again.
  Starting a worker calls \<^verbatim>\<open>storeStagingEnvelope\<close> of \<^verbatim>\<open>store.js\<close>, which starts the
  write to the document store and the write to the search index through
  \<^verbatim>\<open>async.parallel\<close>.
\<close>

definition concurrency :: nat where
  "concurrency = 10"

definition storeStagingEnvelope :: "string \<times> jsval \<Rightarrow> par_state" where
  "storeStagingEnvelope t = \<lparr>p_task = t, store_op = Pending, index_op = Pending, called = False\<rparr>"

fun start_tasks ::
  "nat \<Rightarrow> (string \<times> jsval) list \<Rightarrow> par_state list \<Rightarrow> nat \<times> (string \<times> jsval) list \<times> par_state list" where
  "start_tasks workers [] ps = (workers, [], ps)"
| "start_tasks workers (t # ts) ps =
     (if workers < concurrency then start_tasks (Suc workers) ts (ps @ [storeStagingEnvelope t])
      else (workers, t # ts, ps))"

definition q_process :: "handler \<Rightarrow> handler" where
  "q_process s =
     (case start_tasks (q_workers s) (q_tasks s) (par s) of
        (workers, ts, ps) \<Rightarrow> s\<lparr>q_workers := workers, q_tasks := ts, par := ps\<rparr>)"

definition q_push :: "string \<times> jsval \<Rightarrow> handler \<Rightarrow> handler" where
  "q_push t s = s\<lparr>q_tasks := q_tasks s @ [t]\<rparr>"

definition q_running :: "handler \<Rightarrow> nat" where
  "q_running s = q_workers s"

definition drain :: "handler \<Rightarrow> handler" where
  "drain s = (case q_drain s of Noop \<Rightarrow> s | FinishRequest \<Rightarrow> finishRequest s)"

definition q_next :: "handler \<Rightarrow> handler" where
  "q_next s =
     (let s1 = s\<lparr>q_workers := q_workers s - 1\<rparr>;
          s2 = (if length (q_tasks s1) + q_workers s1 = 0 then drain s1 else s1)
      in q_process s2)"

text \<open>The callback that \<^verbatim>\<open>envelopeStagingWorker\<close> gives to \<^verbatim>\<open>storeStagingEnvelope\<close>.\<close>

definition envelope_stored :: "js_error option \<Rightarrow> handler \<Rightarrow> handler" where
  "envelope_stored err s =
     (case err of
        Some e \<Rightarrow>
          q_next (reportError e None ''storing metadata envelope'' False
                    (s\<lparr>failureCount := Suc (failureCount s)\<rparr>))
      | None \<Rightarrow> q_next (s\<lparr>envelopeCount := Suc (envelopeCount s)\<rparr>))"

text \<open>
  One of the two writes of the \<open>k\<close>-th started task has answered. \<^verbatim>\<open>async.parallel\<close>
  calls its callback once: with the first error that arrives, or with no error when the
  last write has answered.
\<close>

datatype which_op = Store | Index

definition set_op :: "which_op \<Rightarrow> js_error option \<Rightarrow> par_state \<Rightarrow> par_state" where
  "set_op which r p =
     (case which of Store \<Rightarrow> p\<lparr>store_op := Done r\<rparr> | Index \<Rightarrow> p\<lparr>index_op := Done r\<rparr>)"

definition get_op :: "which_op \<Rightarrow> par_state \<Rightarrow> op_state" where
  "get_op which p = (case which of Store \<Rightarrow> store_op p | Index \<Rightarrow> index_op p)"

definition other_op :: "which_op \<Rightarrow> par_state \<Rightarrow> op_state" where
  "other_op which p = (case which of Store \<Rightarrow> index_op p | Index \<Rightarrow> store_op p)"

definition parallel_done :: "nat \<Rightarrow> which_op \<Rightarrow> js_error option \<Rightarrow> handler \<Rightarrow> handler" where
  "parallel_done k which r s =
     (let p = par s ! k;
          p1 = set_op which r p in
      if called p then s\<lparr>par := (par s)[k := p1]\<rparr>
      else
        (case r of
           Some e \<Rightarrow> envelope_stored (Some e) (s\<lparr>par := (par s)[k := p1\<lparr>called := True\<rparr>]\<rparr>)
         | None \<Rightarrow>
             if other_op which p \<noteq> Pending
             then envelope_stored None (s\<lparr>par := (par s)[k := p1\<lparr>called := True\<rparr>]\<rparr>)
             else s\<lparr>par := (par s)[k := p1]\<rparr>))"

subsection \<open>The entries of the archive\<close>

text \<open>
  \<^verbatim>\<open>jsonFromStream\<close> calls back when the stream has ended, with the outcome \<open>r\<close> of
  \<^verbatim>\<open>JSON.parse\<close> on the body. The successful call of the callback sits inside the
  \<^verbatim>\<open>try\<close> block, so an exception thrown by the callback is caught and the callback is
  called a second time, with that exception as the error. The callbacks below throw
  before they change anything.
\<close>

definition jsonFromStream ::
  "(js_error + jsval \<Rightarrow> handler \<Rightarrow> exn + handler) \<Rightarrow> js_error + jsval \<Rightarrow> handler \<Rightarrow> exn + handler" where
  "jsonFromStream callback r s =
     (case r of
        Inl err \<Rightarrow> callback (Inl err) s
      | Inr payload \<Rightarrow>
          (case callback (Inr payload) s of
             Inl x \<Rightarrow> callback (Inl (error_of x)) s
           | Inr s' \<Rightarrow> Inr s'))"

definition config_parsed :: "string \<Rightarrow> js_error + jsval \<Rightarrow> handler \<Rightarrow> exn + handler" where
  "config_parsed entryPath r s =
     (case r of
        Inl err \<Rightarrow> Inr (reportError err (Some entryPath) ''parsing config.json'' False s)
      | Inr config \<Rightarrow>
          (case get_prop config ''contentIDBase'' of
             Inl x \<Rightarrow> Inl x
           | Inr v \<Rightarrow>
               if \<not> truthy v
               then Inr (reportError (mk_error ''Missing required key: contentIDBase'')
                           (Some entryPath) ''parsing config.json'' False s)
               else Inr (s\<lparr>contentIDBase := v\<rparr>)))"

definition keep_parsed ::
  "runtime \<Rightarrow> string \<Rightarrow> js_error + jsval \<Rightarrow> handler \<Rightarrow> exn + handler" where
  "keep_parsed rt entryPath r s =
     (case r of
        Inl err \<Rightarrow> Inr (reportError err (Some entryPath) ''parsing keep.json'' False s)
      | Inr keep \<Rightarrow>
          (case get_prop keep ''keep'' of
             Inl x \<Rightarrow> Inl x
           | Inr v \<Rightarrow>
               if \<not> truthy v
               then Inr (reportError (mk_error ''Missing required key: keep'')
                           (Some entryPath) ''parsing keep.json'' False s)
               else
                 (case v of
                    JArr ids \<Rightarrow>
                      Inr (s\<lparr>toKeep := fold (\<lambda>contentID ks. add_key (to_key rt contentID) ks)
                                          ids (toKeep s)\<rparr>)
                  | _ \<Rightarrow> Inl (TypeError ''keep.keep.forEach is not a function''))))"

definition envelope_parsed ::
  "string \<Rightarrow> string \<Rightarrow> js_error + jsval \<Rightarrow> handler \<Rightarrow> exn + handler" where
  "envelope_parsed contentID entryPath r s =
     (case r of
        Inl err \<Rightarrow>
          Inr (reportError err (Some entryPath) ''parsing metadata envelope'' False
                 (s\<lparr>failureCount := Suc (failureCount s)\<rparr>))
      | Inr envelope \<Rightarrow> Inr (q_push (contentID, envelope) s))"

definition open_stream :: "stream_kind \<Rightarrow> string \<Rightarrow> handler \<Rightarrow> handler" where
  "open_stream kind entryPath s = s\<lparr>streams := streams s @ [(kind, entryPath)]\<rparr>"

definition handleStagingEnvelopeEntry :: "runtime \<Rightarrow> string \<Rightarrow> handler \<Rightarrow> handler" where
  "handleStagingEnvelopeEntry rt entryPath s =
     (let encodedContentID = basename_ext rt entryPath ''.json'' in
      case decodeURIComponent rt encodedContentID of
        None \<Rightarrow> s\<lparr>uncaught := uncaught s @ [URIError], decoder := Stalled\<rparr>
      | Some contentID \<Rightarrow>
          open_stream (Envelope_stream contentID) entryPath
            (s\<lparr>toKeep := add_key contentID (toKeep s)\<rparr>))"

text \<open>\<^verbatim>\<open>String.prototype.split\<close> on the path separator.\<close>

fun split_sep :: "string \<Rightarrow> string list" where
  "split_sep [] = [[]]"
| "split_sep (c # cs) =
     (if c = CHR ''/'' then [] # split_sep cs
      else (case split_sep cs of [] \<Rightarrow> [[c]] | x # xs \<Rightarrow> (c # x) # xs))"

definition is_envelope_entry :: "runtime \<Rightarrow> string \<Rightarrow> string \<Rightarrow> bool" where
  "is_envelope_entry rt etype entryPath =
     (etype = ''file''
      \<and> last (split_sep (dirname rt entryPath)) \<noteq> ''metadata''
      \<and> suffix ''.json'' (basename rt entryPath))"

definition on_entry :: "runtime \<Rightarrow> string \<Rightarrow> string \<Rightarrow> handler \<Rightarrow> handler" where
  "on_entry rt etype entryPath s =
     (if etype \<noteq> ''file'' then s
      else
        (let dirs = split_sep (dirname rt entryPath);
             dname = last dirs;
             bname = basename rt entryPath in
         if dname = ''metadata'' then
           (if bname = ''config.json'' then open_stream Config_stream entryPath s
            else if bname = ''keep.json'' then open_stream Keep_stream entryPath s
            else s)
         else if suffix ''.json'' bname then handleStagingEnvelopeEntry rt entryPath s
         else s))"

definition on_stream_end ::
  "runtime \<Rightarrow> nat \<Rightarrow> js_error + jsval \<Rightarrow> handler \<Rightarrow> handler" where
  "on_stream_end rt i r s =
     (let kind = fst (streams s ! i);
          entryPath = snd (streams s ! i);
          s1 = s\<lparr>streams := take i (streams s) @ drop (Suc i) (streams s)\<rparr>;
          callback = (case kind of
                        Config_stream \<Rightarrow> config_parsed entryPath
                      | Keep_stream \<Rightarrow> keep_parsed rt entryPath
                      | Envelope_stream contentID \<Rightarrow> envelope_parsed contentID entryPath) in
      case jsonFromStream callback r s1 of
        Inl x \<Rightarrow> s1\<lparr>uncaught := uncaught s1 @ [x]\<rparr>
      | Inr s2 \<Rightarrow> s2)"

definition on_error :: "js_error \<Rightarrow> handler \<Rightarrow> handler" where
  "on_error err s =
     s\<lparr>decoder := Failed, sent := sent s @ [(400, Error_body err)], nexts := nexts s @ [None]\<rparr>"

text \<open>
  \<^verbatim>\<open>req.pipe(zlib.createGunzip()).pipe(extract)\<close>: the stream that \<^verbatim>\<open>zlib.createGunzip()\<close>
  returns has no \<^verbatim>\<open>error\<close> listener, and \<^verbatim>\<open>pipe\<close> does not hand the error of a source to its
  destination. When the body is not gzip data, or ends early, the gunzip stream emits
  \<^verbatim>\<open>error\<close>, which with no listener is thrown; a decoder that was decoding gets no more
  data and is never ended, so that neither its \<^verbatim>\<open>error\<close> nor its \<^verbatim>\<open>finish\<close> follows. The
  gunzip stream fails at most once, and not after it has ended, which it has when the
  decoder has finished.
\<close>

fun is_unhandled :: "exn \<Rightarrow> bool" where
  "is_unhandled (Unhandled_error err) = True"
| "is_unhandled _ = False"

definition gunzip_failed :: "handler \<Rightarrow> bool" where
  "gunzip_failed s = list_ex is_unhandled (uncaught s)"

definition on_gunzip_error :: "js_error \<Rightarrow> handler \<Rightarrow> handler" where
  "on_gunzip_error err s =
     s\<lparr>uncaught := uncaught s @ [Unhandled_error err],
       decoder := (if decoder s = Decoding then Stalled else decoder s)\<rparr>"

definition on_finish :: "handler \<Rightarrow> handler" where
  "on_finish s =
     (let s1 = s\<lparr>decoder := Finished\<rparr> in
      if q_running s1 \<noteq> 0 then s1\<lparr>q_drain := FinishRequest\<rparr> else finishRequest s1)"

subsection \<open>Events and runs\<close>

text \<open>
  What can happen to a request, and when. The decoder emits entries while it decodes,
  then either \<^verbatim>\<open>error\<close> or, once every entry stream has ended, \<^verbatim>\<open>finish\<close>; the gunzip
  stream before it may fail, once, as long as the decoder has not finished. An entry stream that has been
  opened may end at any time, also after the decoder has failed: what it holds is parsed
  and handled all the same. The stream of an entry that the handler ignores is not read,
  and the decoder may wait for it for ever: a run may stop at any point. The deferred
  \<^verbatim>\<open>process\<close> of the queue may run at any time. A write answers once, after it has been
  started. The listing and the removal answer once they have been started.
  \<open>step\<close> is \<open>None\<close> for an event that cannot happen in the state.
\<close>

datatype event =
    Entry string string
  | Stream_end nat "js_error + jsval"
  | Extract_error js_error
  | Gunzip_error js_error
  | Finish
  | Process
  | Write_done nat which_op "js_error option"
  | Listed "js_error + string list"
  | Removed "js_error option"

fun step :: "runtime \<Rightarrow> event \<Rightarrow> handler \<Rightarrow> handler option" where
  "step rt (Entry etype entryPath) s =
     (if decoder s = Decoding then Some (on_entry rt etype entryPath s) else None)"
| "step rt (Stream_end i r) s =
     (if i < length (streams s) then Some (on_stream_end rt i r s) else None)"
| "step rt (Extract_error err) s =
     (if decoder s = Decoding then Some (on_error err s) else None)"
| "step rt (Gunzip_error err) s =
     (if decoder s \<noteq> Finished \<and> \<not> gunzip_failed s then Some (on_gunzip_error err s) else None)"
| "step rt Finish s =
     (if decoder s = Decoding \<and> streams s = [] then Some (on_finish s) else None)"
| "step rt Process s = Some (q_process s)"
| "step rt (Write_done k which r) s =
     (if k < length (par s) \<and> get_op which (par s ! k) = Pending
      then Some (parallel_done k which r s) else None)"
| "step rt (Listed r) s =
     (case recon s of Listing pfx \<Rightarrow> Some (listing_done r s) | _ \<Rightarrow> None)"
| "step rt (Removed r) s =
     (case recon s of Removing ids \<Rightarrow> Some (envelopes_removed r s) | _ \<Rightarrow> None)"

fun run :: "runtime \<Rightarrow> event list \<Rightarrow> handler \<Rightarrow> handler option" where
  "run rt [] s = Some s"
| "run rt (e # es) s = (case step rt e s of None \<Rightarrow> None | Some s' \<Rightarrow> run rt es s')"

subsection \<open>A runtime for plain paths\<close>

text \<open>
  The \<^verbatim>\<open>path\<close> functions on relative paths without a trailing separator, and
  \<^verbatim>\<open>decodeURIComponent\<close> on names without an escape: the runtime of the examples.
\<close>

fun join_sep :: "string list \<Rightarrow> string" where
  "join_sep [] = []"
| "join_sep [x] = x"
| "join_sep (x # y # ys) = x @ ''/'' @ join_sep (y # ys)"

definition plain_dirname :: "string \<Rightarrow> string" where
  "plain_dirname p = (let ds = butlast (split_sep p) in if ds = [] then ''.'' else join_sep ds)"

definition plain_basename :: "string \<Rightarrow> string" where
  "plain_basename p = last (split_sep p)"

definition plain_basename_ext :: "string \<Rightarrow> string \<Rightarrow> string" where
  "plain_basename_ext p ext =
     (let b = plain_basename p in
      if ext = p then []
      else if suffix ext b \<and> b \<noteq> ext then take (length b - length ext) b
      else b)"

definition plain_runtime :: runtime where
  "plain_runtime =
     \<lparr>contentContainer = ''content'',
      encodeURIComponent = (\<lambda>s. s),
      decodeURIComponent = Some,
      dirname = plain_dirname,
      basename = plain_basename,
      basename_ext = plain_basename_ext,
      numberToString = show_int\<rparr>"

subsection \<open>Invariants of a request\<close>

text \<open>
  A started task is stored and indexed when both of its writes have answered without an
  error. \<open>accounting\<close> ties the counters to the started tasks: a task whose callback has
  run has either succeeded or seen an error, a task whose callback has not run still
  waits for a write, the number of running workers is the number of the latter and at
  most the concurrency of the queue, and \<^verbatim>\<open>envelopeCount\<close> is the number of stored
  and indexed tasks.
\<close>

definition both_ok :: "par_state \<Rightarrow> bool" where
  "both_ok p = (store_op p = Done None \<and> index_op p = Done None)"

fun failed_op :: "op_state \<Rightarrow> bool" where
  "failed_op (Done (Some e)) = True"
| "failed_op _ = False"

definition par_ok :: "par_state \<Rightarrow> bool" where
  "par_ok p =
     (if called p then both_ok p \<or> failed_op (store_op p) \<or> failed_op (index_op p)
      else \<not> failed_op (store_op p) \<and> \<not> failed_op (index_op p)
           \<and> (store_op p = Pending \<or> index_op p = Pending))"

definition accepted_tasks :: "handler \<Rightarrow> nat" where
  "accepted_tasks s = length (filter both_ok (par s))"

definition accounting :: "handler \<Rightarrow> bool" where
  "accounting s =
     (list_all par_ok (par s)
      \<and> q_workers s = length (filter (\<lambda>p. \<not> called p) (par s))
      \<and> q_workers s \<le> concurrency
      \<and> envelopeCount s = accepted_tasks s)"

text \<open>
  \<open>protocol\<close> is the state of the completion: before \<^verbatim>\<open>finish\<close> nothing is armed and
  nothing has fired; after it, either \<^verbatim>\<open>drain\<close> is armed and a worker still runs, or
  \<^verbatim>\<open>finishRequest\<close> has been called once, by the \<^verbatim>\<open>finish\<close> handler itself or by
  \<^verbatim>\<open>drain\<close> on a queue that has nothing left.
\<close>

definition protocol :: "handler \<Rightarrow> bool" where
  "protocol s =
     (if decoder s = Finished then
        streams s = []
        \<and> ((finish_calls s = 0 \<and> q_drain s = FinishRequest \<and> 0 < q_workers s)
           \<or> (finish_calls s = 1 \<and> q_drain s = Noop)
           \<or> (finish_calls s = 1 \<and> q_drain s = FinishRequest \<and> q_tasks s = [] \<and> q_workers s = 0))
      else finish_calls s = 0 \<and> q_drain s = Noop)"

text \<open>The number of tasks that one run of \<^verbatim>\<open>process\<close> starts.\<close>

definition started :: "nat \<Rightarrow> (string \<times> jsval) list \<Rightarrow> nat" where
  "started workers ts = min (concurrency - workers) (length ts)"

text \<open>The writes that have not answered yet, counting two for a task that still waits.\<close>

fun pending_op :: "op_state \<Rightarrow> nat" where
  "pending_op Pending = 1"
| "pending_op (Done r) = 0"

definition pending_writes :: "handler \<Rightarrow> nat" where
  "pending_writes s =
     2 * length (q_tasks s) + (\<Sum>p\<leftarrow>par s. pending_op (store_op p) + pending_op (index_op p))"

fun is_write :: "event \<Rightarrow> bool" where
  "is_write (Write_done k which r) = True"
| "is_write _ = False"

text \<open>The responses that a step adds, and the shape of a completion report.\<close>

definition new_responses :: "handler \<Rightarrow> handler \<Rightarrow> (nat \<times> body) list" where
  "new_responses s s' = drop (length (sent s)) (sent s')"

definition completion_report :: "handler \<Rightarrow> nat \<times> body" where
  "completion_report s =
     (if failureCount s = 0 then 200 else 500,
      Report (accepted_tasks s) (failureCount s) (deletionCount s))"

fun is_report :: "nat \<times> body \<Rightarrow> bool" where
  "is_report (code, Report a f d) = True"
| "is_report (code, Error_body e) = False"

text \<open>
  \<open>responses_ok\<close> says what has been sent in each state of the decoder and of the
  reconciliation: nothing while the archive is decoded, one 400 with the error after a
  decoding error, and after \<^verbatim>\<open>finish\<close> only completion reports, none while the
  reconciliation runs and at most one in all.
\<close>

fun is_error_response :: "(nat \<times> body) list \<Rightarrow> bool" where
  "is_error_response [(code, Error_body e)] = (code = 400)"
| "is_error_response _ = False"

fun responses_shape ::
  "decoder_state \<Rightarrow> recon_state \<Rightarrow> (nat \<times> body) list \<Rightarrow> nat \<Rightarrow> bool" where
  "responses_shape Finished Not_started rs calls = (list_all is_report rs \<and> length rs = calls)"
| "responses_shape Finished (Listing p) rs calls = (rs = [] \<and> calls = 1)"
| "responses_shape Finished (Removing ids) rs calls = (rs = [] \<and> calls = 1)"
| "responses_shape Finished Recon_done rs calls =
     (list_all is_report rs \<and> length rs \<le> 1 \<and> calls = 1)"
| "responses_shape Failed r rs calls = (r = Not_started \<and> is_error_response rs)"
| "responses_shape Decoding r rs calls = (r = Not_started \<and> rs = [])"
| "responses_shape Stalled r rs calls = (r = Not_started \<and> rs = [])"

definition responses_ok :: "handler \<Rightarrow> bool" where
  "responses_ok s = responses_shape (decoder s) (recon s) (sent s) (finish_calls s)"

definition request_ok :: "handler \<Rightarrow> bool" where
  "request_ok s = (accounting s \<and> protocol s \<and> responses_ok s)"

text \<open>
  A step leaves the request alone when it changes neither the queue's workers, nor the
  started tasks, nor the completion, nor the responses, and removes nothing from
  \<^verbatim>\<open>toKeep\<close>.
\<close>

definition quiet :: "handler \<Rightarrow> handler \<Rightarrow> bool" where
  "quiet s s' =
     (par s' = par s \<and> q_workers s' = q_workers s \<and> q_drain s' = q_drain s
       \<and> envelopeCount s' = envelopeCount s \<and> finish_calls s' = finish_calls s
       \<and> sent s' = sent s \<and> decoder s' = decoder s \<and> streams s' = streams s
       \<and> uncaught s' = uncaught s \<and> recon s' = recon s \<and> deletionCount s' = deletionCount s
       \<and> set (toKeep s) \<subseteq> set (toKeep s'))"



text \<open>The alias requests in a log of requests.\<close>

fun is_update_aliases :: "request \<Rightarrow> bool" where
  "is_update_aliases (Req_updateAliases actions) = True"
| "is_update_aliases _ = False"

text \<open>A world without outage.\<close>

definition calm :: "world \<Rightarrow> bool" where
  "calm w = (\<forall>n. \<not> outage w n)"

section \<open>Examples\<close>


text \<open>
  A cluster after an earlier rebuild: the latch, the active generation with one
  document, and a new generation that is not active yet. And a cluster with nothing
  in it.
\<close>

definition two_generations :: world where
  "two_generations =
     \<lparr>files = [''a'', ''b''],
      indices = [(''latch'', []), (''envelopes_1'', [''envelopes_current'']), (''envelopes_2'', [])],
      docs = [(''envelopes_1'', ''a'')],
      requests = [],
      outage = (\<lambda>n. False)\<rparr>"

definition empty_cluster :: world where
  "empty_cluster = \<lparr>files = [], indices = [], docs = [], requests = [], outage = (\<lambda>n. False)\<rparr>"

text \<open>The second cluster once the new generation has been made active.\<close>

definition promoted :: world where
  "promoted =
     \<lparr>files = [''a'', ''b''],
      indices = [(''latch'', []), (''envelopes_2'', [''envelopes_current''])],
      docs = [],
      requests = [Req_updateAliases [Remove_alias ''*'' ''envelopes_current'',
                                     Add_alias ''envelopes_2'' ''envelopes_current''],
                  Req_get ''envelopes*'', Req_delete_index ''envelopes_1''],
      outage = (\<lambda>n. False)\<rparr>"

subsection \<open>Requests\<close>

text \<open>
  An archive with the single record \<^verbatim>\<open>a.json\<close>, whose envelope is stored by one worker.
  In the first run \<^verbatim>\<open>finish\<close> comes while the worker runs: the write to the document
  store has answered and the write to the index has not, so \<^verbatim>\<open>drain\<close> is armed; when
  that write answers too, the queue drains and the report is sent.
\<close>

definition sample_envelope :: jsval where
  "sample_envelope = JObj [(''title'', JStr ''t'')]"

definition armed_run :: "event list" where
  "armed_run =
     [Entry ''file'' ''a.json'', Stream_end 0 (Inr sample_envelope), Process, Finish,
      Write_done 0 Store None]"

definition armed_state :: handler where
  "armed_state =
     \<lparr>contentIDBase = JNull, envelopeCount = 0, failureCount = 0, deletionCount = 0,
      toKeep = [''a''], q_tasks = [], q_workers = 1, q_drain = FinishRequest,
      par = [\<lparr>p_task = (''a'', sample_envelope), store_op = Done None, index_op = Pending,
              called = False\<rparr>],
      streams = [], decoder = Finished, recon = Not_started, sent = [], nexts = [],
      reported = [], uncaught = [], finish_calls = 0\<rparr>"

definition drained_state :: handler where
  "drained_state =
     \<lparr>contentIDBase = JNull, envelopeCount = 1, failureCount = 0, deletionCount = 0,
      toKeep = [''a''], q_tasks = [], q_workers = 0, q_drain = FinishRequest,
      par = [\<lparr>p_task = (''a'', sample_envelope), store_op = Done None, index_op = Done None,
              called = True\<rparr>],
      streams = [], decoder = Finished, recon = Not_started, sent = [(200, Report 1 0 0)],
      nexts = [None], reported = [], uncaught = [], finish_calls = 1\<rparr>"

text \<open>The same archive when both writes answer before \<^verbatim>\<open>finish\<close>: the queue is idle then.\<close>

definition idle_run :: "event list" where
  "idle_run =
     [Entry ''file'' ''a.json'', Stream_end 0 (Inr sample_envelope), Process,
      Write_done 0 Store None, Write_done 0 Index None, Finish]"

definition idle_state :: handler where
  "idle_state =
     \<lparr>contentIDBase = JNull, envelopeCount = 1, failureCount = 0, deletionCount = 0,
      toKeep = [''a''], q_tasks = [], q_workers = 0, q_drain = Noop,
      par = [\<lparr>p_task = (''a'', sample_envelope), store_op = Done None, index_op = Done None,
              called = True\<rparr>],
      streams = [], decoder = Finished, recon = Not_started, sent = [(200, Report 1 0 0)],
      nexts = [None], reported = [], uncaught = [], finish_calls = 1\<rparr>"

text \<open>
  The record is being stored while the archive is still decoded, and the write to the
  document store fails first.
\<close>

definition running_run :: "event list" where
  "running_run = [Entry ''file'' ''a.json'', Stream_end 0 (Inr sample_envelope), Process]"

definition running_state :: handler where
  "running_state =
     \<lparr>contentIDBase = JNull, envelopeCount = 0, failureCount = 0, deletionCount = 0,
      toKeep = [''a''], q_tasks = [], q_workers = 1, q_drain = Noop,
      par = [\<lparr>p_task = (''a'', sample_envelope), store_op = Pending, index_op = Pending,
              called = False\<rparr>],
      streams = [], decoder = Decoding, recon = Not_started, sent = [], nexts = [],
      reported = [], uncaught = [], finish_calls = 0\<rparr>"

definition store_failed_state :: handler where
  "store_failed_state =
     \<lparr>contentIDBase = JNull, envelopeCount = 0, failureCount = 1, deletionCount = 0,
      toKeep = [''a''], q_tasks = [], q_workers = 0, q_drain = Noop,
      par = [\<lparr>p_task = (''a'', sample_envelope), store_op = Done (Some (mk_error ''store'')),
              index_op = Pending, called = True\<rparr>],
      streams = [], decoder = Decoding, recon = Not_started, sent = [], nexts = [],
      reported = [(None, ''storing metadata envelope'', False)], uncaught = [],
      finish_calls = 0\<rparr>"

text \<open>
  An archive with a \<^verbatim>\<open>config.json\<close>, a \<^verbatim>\<open>keep.json\<close> and the record \<^verbatim>\<open>Xa.json\<close>, and a
  store that lists \<^verbatim>\<open>Xa\<close>, \<^verbatim>\<open>Xb\<close> and \<^verbatim>\<open>Xc\<close> under the prefix.
\<close>

definition reconciling_run :: "event list" where
  "reconciling_run =
     [Entry ''file'' ''metadata/config.json'',
      Stream_end 0 (Inr (JObj [(''contentIDBase'', JStr ''X'')])),
      Entry ''file'' ''metadata/keep.json'',
      Stream_end 0 (Inr (JObj [(''keep'', JArr [JStr ''Xb''])])),
      Entry ''file'' ''Xa.json'',
      Stream_end 0 (Inr sample_envelope),
      Process,
      Write_done 0 Store None,
      Write_done 0 Index None,
      Finish,
      Listed (Inr [''Xa'', ''Xb'', ''Xc''])]"

definition reconciling_state :: handler where
  "reconciling_state =
     \<lparr>contentIDBase = JStr ''X'', envelopeCount = 1, failureCount = 0, deletionCount = 1,
      toKeep = [''Xb'', ''Xa''], q_tasks = [], q_workers = 0, q_drain = Noop,
      par = [\<lparr>p_task = (''Xa'', sample_envelope), store_op = Done None, index_op = Done None,
              called = True\<rparr>],
      streams = [], decoder = Finished, recon = Recon_done, sent = [], nexts = [],
      reported = [], uncaught = [TypeError ''removeEnvelopes is not a function''],
      finish_calls = 1\<rparr>"

text \<open>The entry \<^verbatim>\<open>a.json\<close> has been announced and its body is still being read.\<close>

definition entered_state :: handler where
  "entered_state =
     \<lparr>contentIDBase = JNull, envelopeCount = 0, failureCount = 0, deletionCount = 0,
      toKeep = [''a''], q_tasks = [], q_workers = 0, q_drain = Noop, par = [],
      streams = [(Envelope_stream ''a'', ''a.json'')], decoder = Decoding,
      recon = Not_started, sent = [], nexts = [], reported = [], uncaught = [],
      finish_calls = 0\<rparr>"

text \<open>The archive breaks off after the header of \<^verbatim>\<open>a.json\<close>.\<close>

definition malformed_state :: handler where
  "malformed_state =
     \<lparr>contentIDBase = JNull, envelopeCount = 0, failureCount = 0, deletionCount = 0,
      toKeep = [''a''], q_tasks = [], q_workers = 0, q_drain = Noop, par = [],
      streams = [(Envelope_stream ''a'', ''a.json'')], decoder = Failed,
      recon = Not_started, sent = [(400, Error_body (mk_error ''Invalid tar header''))],
      nexts = [None], reported = [], uncaught = [], finish_calls = 0\<rparr>"

text \<open>The body of \<^verbatim>\<open>a.json\<close> does not parse.\<close>

definition parse_failure_run :: "event list" where
  "parse_failure_run = [Stream_end 0 (Inl (mk_error ''Unexpected token'')), Finish]"

definition parse_failed_state :: handler where
  "parse_failed_state =
     \<lparr>contentIDBase = JNull, envelopeCount = 0, failureCount = 1, deletionCount = 0,
      toKeep = [''a''], q_tasks = [], q_workers = 0, q_drain = Noop, par = [],
      streams = [], decoder = Finished, recon = Not_started, sent = [(500, Report 0 1 0)],
      nexts = [None], reported = [(Some ''a.json'', ''parsing metadata envelope'', False)],
      uncaught = [], finish_calls = 1\<rparr>"

text \<open>
  An archive that holds only a \<^verbatim>\<open>config.json\<close> with a \<^verbatim>\<open>contentIDBase\<close>, and a store that
  lists nothing under the prefix: the queue is idle at \<^verbatim>\<open>finish\<close>.
\<close>

definition unreported_run :: "event list" where
  "unreported_run =
     [Entry ''file'' ''metadata/config.json'',
      Stream_end 0 (Inr (JObj [(''contentIDBase'', JStr ''X'')])),
      Finish,
      Listed (Inr [])]"

definition unreported_state :: handler where
  "unreported_state =
     \<lparr>contentIDBase = JStr ''X'', envelopeCount = 0, failureCount = 0, deletionCount = 0,
      toKeep = [], q_tasks = [], q_workers = 0, q_drain = Noop, par = [],
      streams = [], decoder = Finished, recon = Recon_done, sent = [], nexts = [],
      reported = [], uncaught = [TypeError ''removeEnvelopes is not a function''],
      finish_calls = 1\<rparr>"

text \<open>
  The archive with the single record \<^verbatim>\<open>a.json\<close> when \<^verbatim>\<open>finish\<close> comes before the deferred
  \<^verbatim>\<open>process\<close> of the queue has started the task: \<^verbatim>\<open>running()\<close> is 0 and the task is
  still queued. It is started, stored and indexed afterwards.
\<close>

definition premature_run :: "event list" where
  "premature_run = [Entry ''file'' ''a.json'', Stream_end 0 (Inr sample_envelope), Finish]"

definition premature_state :: handler where
  "premature_state =
     \<lparr>contentIDBase = JNull, envelopeCount = 0, failureCount = 0, deletionCount = 0,
      toKeep = [''a''], q_tasks = [(''a'', sample_envelope)], q_workers = 0, q_drain = Noop,
      par = [], streams = [], decoder = Finished, recon = Not_started,
      sent = [(200, Report 0 0 0)], nexts = [None], reported = [], uncaught = [],
      finish_calls = 1\<rparr>"

definition late_store_run :: "event list" where
  "late_store_run = [Process, Write_done 0 Store None, Write_done 0 Index None]"

definition stored_late_state :: handler where
  "stored_late_state =
     \<lparr>contentIDBase = JNull, envelopeCount = 1, failureCount = 0, deletionCount = 0,
      toKeep = [''a''], q_tasks = [], q_workers = 0, q_drain = Noop,
      par = [\<lparr>p_task = (''a'', sample_envelope), store_op = Done None, index_op = Done None,
              called = True\<rparr>],
      streams = [], decoder = Finished, recon = Not_started,
      sent = [(200, Report 0 0 0)], nexts = [None], reported = [], uncaught = [],
      finish_calls = 1\<rparr>"

text \<open>The body of the request is not gzip data.\<close>

definition gunzip_failed_state :: handler where
  "gunzip_failed_state =
     \<lparr>contentIDBase = JNull, envelopeCount = 0, failureCount = 0, deletionCount = 0,
      toKeep = [], q_tasks = [], q_workers = 0, q_drain = Noop, par = [],
      streams = [], decoder = Stalled, recon = Not_started, sent = [], nexts = [],
      reported = [], uncaught = [Unhandled_error (mk_error ''incorrect header check'')],
      finish_calls = 0\<rparr>"

fun is_extract_error :: "event \<Rightarrow> bool" where
  "is_extract_error (Extract_error e) = True"
| "is_extract_error _ = False"

section \<open>Properties of src/storage/remote.js\<close>

subsection \<open>Paging\<close>






subsection \<open>Deleting what is not there\<close>

text \<open>
  Claim C9. \<^verbatim>\<open>deleteContent\<close> calls back without an error when the Cloud Files client
  reports status 404, and so does \<^verbatim>\<open>unindexContent\<close> when the search client reports
  status 404. Against the model of the backing services, without an outage, a delete and
  an unindex succeed, and so do a second delete and a second unindex of the same
  contentID.
\<close>

theorem not_found_counts_as_deleted:
  "(removeFile conn (contentContainer rt) (encodeURIComponent rt contentID) w = (Some e, w')
      \<and> statusCode e = JNum 404 \<longrightarrow> deleteContent conn rt contentID w = (None, w'))
   \<and> (elastic_delete conn ''envelopes_current'' ''envelope'' contentID u = (Some e', u')
      \<and> status e' = JStr ''404'' \<longrightarrow> unindexContent conn contentID u = (None, u'))
   \<and> (\<not> down v \<and> \<not> down (snd (deleteContent services rt contentID v)) \<longrightarrow>
        fst (deleteContent services rt contentID v) = None
      \<and> fst (deleteContent services rt contentID (snd (deleteContent services rt contentID v))) = None)
   \<and> (\<not> down v \<and> \<not> down (snd (unindexContent services contentID v)) \<longrightarrow>
        fst (unindexContent services contentID v) = None
      \<and> fst (unindexContent services contentID (snd (unindexContent services contentID v))) = None)"
  by (auto simp: deleteContent_def unindexContent_def services_def w_removeFile_def
      w_elastic_delete_def Let_def cf_error_def es_error_def down_def log_req_def
      split: option.splits if_splits prod.splits)

theorem not_found_counts_as_deleted_witness:
  "removeFile services (contentContainer plain_runtime) (encodeURIComponent plain_runtime ''c'')
       two_generations
     = (Some (cf_error 404), log_req (Req_removeFile ''content'' ''c'') two_generations)
   \<and> statusCode (cf_error 404) = JNum 404
   \<and> deleteContent services plain_runtime ''c'' two_generations
     = (None, log_req (Req_removeFile ''content'' ''c'') two_generations)
   \<and> elastic_delete services ''envelopes_current'' ''envelope'' ''c'' two_generations
     = (Some (es_error ''404''), log_req (Req_delete_doc ''envelopes_current'' ''envelope'' ''c'') two_generations)
   \<and> status (es_error ''404'') = JStr ''404''
   \<and> unindexContent services ''c'' two_generations
     = (None, log_req (Req_delete_doc ''envelopes_current'' ''envelope'' ''c'') two_generations)
   \<and> fst (deleteContent services plain_runtime ''a'' two_generations) = None
   \<and> fst (deleteContent services plain_runtime ''a''
            (snd (deleteContent services plain_runtime ''a'' two_generations))) = None
   \<and> fst (unindexContent services ''a'' two_generations) = None
   \<and> fst (unindexContent services ''a'' (snd (unindexContent services ''a'' two_generations))) = None"
proof -
  have r: "removeFile services (contentContainer plain_runtime) (encodeURIComponent plain_runtime ''c'')
       two_generations
     = (Some (cf_error 404), log_req (Req_removeFile ''content'' ''c'') two_generations)"
    by (simp add: services_def plain_runtime_def w_removeFile_def two_generations_def Let_def
        down_def log_req_def)
  have d: "elastic_delete services ''envelopes_current'' ''envelope'' ''c'' two_generations
     = (Some (es_error ''404''), log_req (Req_delete_doc ''envelopes_current'' ''envelope'' ''c'') two_generations)"
    by (simp add: services_def w_elastic_delete_def two_generations_def Let_def down_def log_req_def)
  have s: "statusCode (cf_error 404) = JNum 404" "status (es_error ''404'') = JStr ''404''"
    by (simp_all add: cf_error_def es_error_def)
  have nd: "\<not> down two_generations"
    "\<not> down (snd (deleteContent services plain_runtime ''a'' two_generations))"
    "\<not> down (snd (unindexContent services ''a'' two_generations))"
    by (simp_all add: down_def two_generations_def deleteContent_def unindexContent_def
        services_def w_removeFile_def w_elastic_delete_def plain_runtime_def Let_def log_req_def)
  from not_found_counts_as_deleted [where conn = services and rt = plain_runtime
      and contentID = "''c''" and w = two_generations and e = "cf_error 404"
      and w' = "log_req (Req_removeFile ''content'' ''c'') two_generations"
      and u = two_generations and e' = "es_error ''404''"
      and u' = "log_req (Req_delete_doc ''envelopes_current'' ''envelope'' ''c'') two_generations"]
    not_found_counts_as_deleted [where rt = plain_runtime and contentID = "''a''"
      and v = two_generations and conn = services and w = two_generations and u = two_generations]
    r d s nd
  show ?thesis by blast
qed

subsection \<open>Promotion of an index generation\<close>

lemma each_delete_services:
  "each_delete services ns w = (None, w') \<Longrightarrow>
     indices w' = filter (\<lambda>(n, as). n \<notin> set ns) (indices w)
   \<and> requests w' = requests w @ map Req_delete_index ns"
proof (induction ns arbitrary: w w')
  case Nil
  then show ?case by simp
next
  case (Cons a ns)
  obtain e w1 where d: "indices_delete services a w = (e, w1)" by force
  obtain e' w2 where r: "each_delete services ns w1 = (e', w2)" by force
  from Cons.prems d r have e: "e = None" and e': "e' = None" and w2: "w2 = w'"
    by (auto split: option.splits)
  from d e have w1: "indices w1 = filter (\<lambda>(n, as). n \<noteq> a) (indices w)"
      "requests w1 = requests w @ [Req_delete_index a]"
    by (auto simp: services_def w_indices_delete_def Let_def log_req_def split: if_splits)
  from Cons.IH [of w1 w'] r e' w2
  have "indices w' = filter (\<lambda>(n, as). n \<notin> set ns) (indices w1)"
       "requests w' = requests w1 @ map Req_delete_index ns"
    by auto
  with w1 show ?case
    by (auto intro: filter_cong)
qed

lemma matches_star [simp]: "matches ''*'' n"
  by (simp add: matches_def)

lemma fst_names_kept: "set (map (fst \<circ> (\<lambda>(n, as). (n, f n as))) ixs) = set (map fst ixs)"
  by (induction ixs) auto

lemma in_map_fstE:
  assumes "x \<in> set (map fst l)"
  obtains y where "(x, y) \<in> set l"
  using assms by force

lemma holders_after_promote:
  "map fst (filter (\<lambda>(n, as). a \<in> set as)
           (map (\<lambda>(n, as). if n = name then (n, a # removeAll a as) else (n, as))
             (map (\<lambda>(n, as). (n, removeAll a as)) ixs))) = filter (\<lambda>n. n = name) (map fst ixs)"
  by (induction ixs) (auto split: if_splits)

lemma makeIndexActive_effect:
  assumes ok: "makeIndexActive services indexName w = (None, w')"
    and gen: "matches ''envelopes*'' indexName"
  shows "(\<exists>ds. requests w' = requests w @
              [Req_updateAliases [Remove_alias ''*'' ''envelopes_current'',
                                  Add_alias indexName ''envelopes_current''],
               Req_get ''envelopes*''] @ map Req_delete_index ds
            \<and> indexName \<notin> set ds \<and> set (generations w) - {indexName} \<subseteq> set ds)
       \<and> set (generations w') = {indexName}
       \<and> set (alias_holders ''envelopes_current'' w') = {indexName}"
proof -
  let ?acts = "[Remove_alias ''*'' ''envelopes_current'', Add_alias indexName ''envelopes_current'']"
  obtain e1 w1 where u: "indices_updateAliases services ?acts w = (e1, w1)" by force
  with ok have e1: "e1 = None" by (auto simp: makeIndexActive_def split: option.splits)
  obtain r w2 where g: "indices_get services ''envelopes*'' w1 = (r, w2)" by force
  with ok u e1 obtain response where r: "r = Inr response"
    by (cases r) (auto simp: makeIndexActive_def)
  let ?ds = "filter (\<lambda>n. n \<noteq> indexName) response"
  from ok u e1 g r have del: "each_delete services ?ds w2 = (None, w')"
    by (simp add: makeIndexActive_def)
  let ?ixs1 = "map (\<lambda>(n, as). if n = indexName then (n, ''envelopes_current'' # removeAll ''envelopes_current'' as) else (n, as))
             (map (\<lambda>(n, as). (n, removeAll ''envelopes_current'' as)) (indices w))"
  from u e1 have ex: "indexName \<in> set (map fst (indices w))"
    by (auto simp: services_def w_indices_updateAliases_def Let_def log_req_def fst_names_kept
        simp del: set_map split: if_splits option.splits)
  from u e1 have w1: "indices w1 = ?ixs1"
       "requests w1 = requests w @ [Req_updateAliases ?acts]"
    by (auto simp: services_def w_indices_updateAliases_def Let_def log_req_def
        split: if_splits option.splits)
  from g r have w2: "indices w2 = indices w1" "requests w2 = requests w1 @ [Req_get ''envelopes*'']"
    and resp: "response = map fst (filter (\<lambda>(n, as). matches ''envelopes*'' n \<or> list_ex (matches ''envelopes*'') as) (indices w1))"
    by (auto simp: services_def w_indices_get_def Let_def log_req_def split: if_splits)
  from each_delete_services [OF del]
  have w': "indices w' = filter (\<lambda>(n, as). n \<notin> set ?ds) (indices w2)"
     "requests w' = requests w2 @ map Req_delete_index ?ds"
    by auto
  have names1: "map fst ?ixs1 = map fst (indices w)"
    by (induction "indices w") auto
  have gens_resp: "set (generations w) \<subseteq> set response"
  proof
    fix n assume "n \<in> set (generations w)"
    then have "n \<in> set (map fst (indices w))" and m: "matches ''envelopes*'' n"
      by (auto simp: generations_def index_names_def)
    then have "n \<in> set (map fst (indices w1))" using names1 w1(1) by simp
    then obtain as where "(n, as) \<in> set (indices w1)" by (rule in_map_fstE)
    with m show "n \<in> set response" unfolding resp by force
  qed
  have reqs: "requests w' = requests w @ [Req_updateAliases ?acts, Req_get ''envelopes*''] @ map Req_delete_index ?ds"
    using w' w2 w1 by simp
  have part1: "\<exists>ds. requests w' = requests w @ [Req_updateAliases ?acts, Req_get ''envelopes*''] @ map Req_delete_index ds
            \<and> indexName \<notin> set ds \<and> set (generations w) - {indexName} \<subseteq> set ds"
    using reqs gens_resp by (intro exI [of _ ?ds]) auto
  have in1: "indexName \<in> set (map fst (indices w1))"
    using ex names1 w1 by simp
  have gens': "set (generations w') = {indexName}"
  proof
    show "set (generations w') \<subseteq> {indexName}"
    proof
      fix n assume "n \<in> set (generations w')"
      then obtain as where mem: "(n, as) \<in> set (indices w')" and m: "matches ''envelopes*'' n"
        by (auto simp: generations_def index_names_def)
      from mem w' w2 have a: "(n, as) \<in> set (indices w1)" and b: "n \<notin> set ?ds" by auto
      from a m have "n \<in> set response" unfolding resp by force
      with b show "n \<in> {indexName}" by auto
    qed
    show "{indexName} \<subseteq> set (generations w')"
    proof -
      from in1 obtain as where "(indexName, as) \<in> set (indices w1)" by (rule in_map_fstE)
      then have "(indexName, as) \<in> set (indices w')" using w' w2 by auto
      then show ?thesis using gen by (force simp: generations_def index_names_def)
    qed
  qed
  have hold1: "map fst (filter (\<lambda>(n, as). ''envelopes_current'' \<in> set as) (indices w1))
        = filter (\<lambda>n. n = indexName) (map fst (indices w))"
    unfolding w1 by (rule holders_after_promote)
  have holders': "set (alias_holders ''envelopes_current'' w') = {indexName}"
  proof
    show "set (alias_holders ''envelopes_current'' w') \<subseteq> {indexName}"
    proof
      fix n assume "n \<in> set (alias_holders ''envelopes_current'' w')"
      then obtain as where "(n, as) \<in> set (indices w')" "''envelopes_current'' \<in> set as"
        by (auto simp: alias_holders_def)
      then have "(n, as) \<in> set (indices w1)" using w' w2 by auto
      with \<open>''envelopes_current'' \<in> set as\<close>
      have "n \<in> set (map fst (filter (\<lambda>(n, as). ''envelopes_current'' \<in> set as) (indices w1)))"
        by force
      then show "n \<in> {indexName}" unfolding hold1 by auto
    qed
    show "{indexName} \<subseteq> set (alias_holders ''envelopes_current'' w')"
    proof -
      have "indexName \<in> set (filter (\<lambda>n. n = indexName) (map fst (indices w)))"
        using ex by auto
      then have "indexName \<in> set (map fst (filter (\<lambda>(n, as). ''envelopes_current'' \<in> set as) (indices w1)))"
        unfolding hold1 .
      then obtain as where "(indexName, as) \<in> set (indices w1)" "''envelopes_current'' \<in> set as"
        by auto
      then have "(indexName, as) \<in> set (indices w')" using w' w2 by auto
      with \<open>''envelopes_current'' \<in> set as\<close> show ?thesis
        by (force simp: alias_holders_def)
    qed
  qed
  from part1 gens' holders' show ?thesis by blast
qed



lemma calm_not_down: "calm w \<Longrightarrow> \<not> down w"
  by (simp add: calm_def down_def)

lemma delete_calm:
  "calm w \<Longrightarrow> a \<in> set (index_names w) \<Longrightarrow>
     \<exists>w1. indices_delete services a w = (None, w1) \<and> calm w1
        \<and> indices w1 = filter (\<lambda>(n, as). n \<noteq> a) (indices w)"
  by (simp add: services_def w_indices_delete_def Let_def log_req_def calm_def down_def)

lemma names_filter: "map fst (filter (\<lambda>(n, as). P n) ixs) = filter P (map fst ixs)"
  by (induction ixs) auto

lemma each_delete_calm:
  "calm w \<Longrightarrow> distinct ds \<Longrightarrow> set ds \<subseteq> set (index_names w) \<Longrightarrow>
     fst (each_delete services ds w) = None"
proof (induction ds arbitrary: w)
  case Nil
  then show ?case by simp
next
  case (Cons a ds)
  from Cons.prems have "a \<in> set (index_names w)" by simp
  from delete_calm [OF Cons.prems(1) this] obtain w1 where
    d: "indices_delete services a w = (None, w1)" and c: "calm w1"
    and i: "indices w1 = filter (\<lambda>(n, as). n \<noteq> a) (indices w)" by blast
  have "index_names w1 = filter (\<lambda>n. n \<noteq> a) (index_names w)"
    by (simp add: index_names_def i names_filter)
  with Cons.prems have "set ds \<subseteq> set (index_names w1)" by auto
  with Cons.IH [OF c] Cons.prems have "fst (each_delete services ds w1) = None" by simp
  with d show ?case by (simp split: prod.splits)
qed

lemma names_kept_if:
  "map (fst \<circ> (\<lambda>(n, as). if P n then (n, f as) else (n, as))) ixs = map fst ixs"
  by (induction ixs) auto

lemma promote_names:
  "map fst (map (\<lambda>(n, as). if n = name then (n, a # removeAll a as) else (n, as))
             (map (\<lambda>(n, as). if matches pat n then (n, removeAll a as) else (n, as)) ixs)) = map fst ixs"
  by (induction ixs) auto

lemma makeIndexActive_calm:
  assumes "calm w" and "distinct (index_names w)" and "indexName \<in> set (index_names w)"
  shows "fst (makeIndexActive services indexName w) = None"
proof -
  let ?acts = "[Remove_alias ''*'' ''envelopes_current'', Add_alias indexName ''envelopes_current'']"
  define ixs1 where "ixs1 =
     map (\<lambda>(n, as). if n = indexName then (n, ''envelopes_current'' # removeAll ''envelopes_current'' as) else (n, as))
       (map (\<lambda>(n, as). if matches ''*'' n then (n, removeAll ''envelopes_current'' as) else (n, as)) (indices w))"
  define w1 where "w1 = (log_req (Req_updateAliases ?acts) w)\<lparr>indices := ixs1\<rparr>"
  have n1: "map fst ixs1 = map fst (indices w)"
    unfolding ixs1_def by (rule promote_names)
  have ap: "apply_actions ?acts (indices w) = Some ixs1"
    using assms(3) unfolding ixs1_def
    by (simp add: index_names_def names_kept_if del: set_map matches_star)
  have u: "indices_updateAliases services ?acts w = (None, w1)"
    using calm_not_down [OF assms(1)] ap unfolding w1_def
    by (simp add: services_def w_indices_updateAliases_def Let_def
        del: apply_actions.simps apply_action.simps)
  have c1: "calm w1" using assms(1) by (simp add: calm_def w1_def log_req_def)
  define resp where "resp =
     map fst (filter (\<lambda>(n, as). matches ''envelopes*'' n \<or> list_ex (matches ''envelopes*'') as) ixs1)"
  define w2 where "w2 = log_req (Req_get ''envelopes*'') w1"
  have i1: "indices w1 = ixs1" by (simp add: w1_def)
  have g: "indices_get services ''envelopes*'' w1 = (Inr resp, w2)"
    using calm_not_down [OF c1] unfolding resp_def w2_def
    by (simp add: services_def w_indices_get_def Let_def i1)
  have c2: "calm w2" using c1 by (simp add: calm_def w2_def log_req_def)
  have names2: "index_names w2 = index_names w"
    using n1 by (simp add: index_names_def w2_def log_req_def i1)
  have dresp: "distinct resp"
    unfolding resp_def using assms(2) n1
    by (intro distinct_map_filter) (simp add: index_names_def)
  have "set resp \<subseteq> set (map fst ixs1)"
    unfolding resp_def by auto
  then have sresp: "set resp \<subseteq> set (index_names w2)"
    using names2 n1 by (simp add: index_names_def)
  let ?ds = "filter (\<lambda>n. n \<noteq> indexName) resp"
  have "fst (each_delete services ?ds w2) = None"
    using dresp sresp by (intro each_delete_calm [OF c2]) auto
  then show ?thesis
    unfolding makeIndexActive_def u using g by simp
qed

lemma envelopes_name_matches: "matches ''envelopes*'' (''envelopes_'' @ s)"
  by (simp add: matches_def)

lemma envelopes_name_not_latch: "''envelopes_'' @ s \<noteq> ''latch''"
  by simp

text \<open>
  Claim C6. When \<^verbatim>\<open>makeIndexActive\<close> succeeds for a generation name, it has sent one
  alias request, whose two actions remove the alias \<^verbatim>\<open>envelopes_current\<close> from every
  index and add it to the new generation, then listed the generations and deleted each
  of them except the new one; afterwards the new generation is the only generation and
  the only holder of the alias.
\<close>

theorem makeIndexActive_promotes_and_collects:
  assumes "makeIndexActive services indexName w = (None, w')"
    and "matches ''envelopes*'' indexName"
  shows "(\<exists>ds. requests w' = requests w @
              [Req_updateAliases [Remove_alias ''*'' ''envelopes_current'',
                                  Add_alias indexName ''envelopes_current''],
               Req_get ''envelopes*''] @ map Req_delete_index ds
            \<and> indexName \<notin> set ds \<and> set (generations w) - {indexName} \<subseteq> set ds)
       \<and> length (filter is_update_aliases (drop (length (requests w)) (requests w'))) = 1
       \<and> set (generations w') = {indexName}
       \<and> set (alias_holders ''envelopes_current'' w') = {indexName}"
proof -
  note eff = makeIndexActive_effect [OF assms]
  then obtain ds where log: "requests w' = requests w @
              [Req_updateAliases [Remove_alias ''*'' ''envelopes_current'',
                                  Add_alias indexName ''envelopes_current''],
               Req_get ''envelopes*''] @ map Req_delete_index ds"
    by blast
  have "filter is_update_aliases (map Req_delete_index ds) = []"
    by (induction ds) auto
  then have "length (filter is_update_aliases (drop (length (requests w)) (requests w'))) = 1"
    unfolding log by simp
  with eff show ?thesis by blast
qed

theorem makeIndexActive_promotes_and_collects_witness:
  "makeIndexActive services ''envelopes_2'' two_generations = (None, promoted)
   \<and> matches ''envelopes*'' ''envelopes_2''
   \<and> requests promoted =
        [Req_updateAliases [Remove_alias ''*'' ''envelopes_current'',
                            Add_alias ''envelopes_2'' ''envelopes_current''],
         Req_get ''envelopes*'', Req_delete_index ''envelopes_1'']
   \<and> length (filter is_update_aliases
        (drop (length (requests two_generations)) (requests promoted))) = 1
   \<and> set (generations promoted) = {''envelopes_2''}
   \<and> set (alias_holders ''envelopes_current'' promoted) = {''envelopes_2''}"
proof -
  have run: "makeIndexActive services ''envelopes_2'' two_generations = (None, promoted)"
    by (simp add: makeIndexActive_def services_def two_generations_def promoted_def
        w_indices_updateAliases_def w_indices_get_def w_indices_delete_def Let_def log_req_def
        down_def matches_def index_names_def)
  have m: "matches ''envelopes*'' ''envelopes_2''"
    by (simp add: matches_def)
  have r: "requests promoted =
        [Req_updateAliases [Remove_alias ''*'' ''envelopes_current'',
                            Add_alias ''envelopes_2'' ''envelopes_current''],
         Req_get ''envelopes*'', Req_delete_index ''envelopes_1'']"
    by (simp add: promoted_def)
  from makeIndexActive_promotes_and_collects [OF run m] run m r show ?thesis by blast
qed

subsection \<open>The latch\<close>

text \<open>
  Claim C7. When the creation of the latch index answers with status 400 (it exists
  already), \<^verbatim>\<open>setup\<close> calls back without an error and makes no further request: against
  the model of the backing services no index is created and no alias changes. When the
  latch is acquired and the timestamped name is not taken, a generation of that name is
  created and promoted: it is the only generation and the only holder of the alias.
\<close>

theorem latch_decides_setup:
  "(conn_setup conn w = (None, w1) \<and> indices_create conn ''latch'' True w1 = ((None, 400), w2)
       \<longrightarrow> remote_setup conn now w = (None, w2))
   \<and> (calm v \<and> ''latch'' \<in> set (index_names v)
       \<longrightarrow> fst (remote_setup services now v) = None
         \<and> indices (snd (remote_setup services now v)) = indices v)
   \<and> (calm u \<and> distinct (index_names u) \<and> ''latch'' \<notin> set (index_names u)
        \<and> ''envelopes_'' @ show_nat now \<notin> set (index_names u)
       \<longrightarrow> fst (remote_setup services now u) = None
         \<and> set (generations (snd (remote_setup services now u))) = {''envelopes_'' @ show_nat now}
         \<and> set (alias_holders ''envelopes_current'' (snd (remote_setup services now u)))
             = {''envelopes_'' @ show_nat now})"
proof (intro conjI impI)
  assume "conn_setup conn w = (None, w1) \<and> indices_create conn ''latch'' True w1 = ((None, 400), w2)"
  then show "remote_setup conn now w = (None, w2)"
    by (simp add: remote_setup_def)
next
  assume a: "calm v \<and> ''latch'' \<in> set (index_names v)"
  then have nd: "\<not> down v" "\<not> down (log_req Req_setup v)"
    by (simp_all add: calm_def down_def log_req_def)
  have "remote_setup services now v = (None, log_req (Req_create ''latch'' True) (log_req Req_setup v))"
    using a nd
    by (simp add: remote_setup_def services_def w_conn_setup_def w_indices_create_def Let_def
        index_names_def log_req_def)
  then show "fst (remote_setup services now v) = None"
    and "indices (snd (remote_setup services now v)) = indices v"
    by (simp_all add: log_req_def)
next
  let ?name = "''envelopes_'' @ show_nat now"
  assume a: "calm u \<and> distinct (index_names u) \<and> ''latch'' \<notin> set (index_names u)
        \<and> ?name \<notin> set (index_names u)"
  let ?w1 = "log_req Req_setup u"
  let ?w2 = "(log_req (Req_create ''latch'' True) ?w1)\<lparr>indices := indices u @ [(''latch'', [])]\<rparr>"
  let ?w3 = "(log_req (Req_create ?name False) ?w2)\<lparr>indices := indices u @ [(''latch'', []), (?name, [])]\<rparr>"
  let ?w4 = "log_req (Req_putMapping ?name ''envelope'' envelopeMapping) ?w3"
  have nd: "\<not> down u" "\<not> down ?w1" "\<not> down ?w2" "\<not> down ?w3"
    using a by (simp_all add: calm_def down_def log_req_def)
  have s1: "conn_setup services u = (None, ?w1)"
    using nd by (simp add: services_def w_conn_setup_def)
  have s2: "indices_create services ''latch'' True ?w1 = ((None, 200), ?w2)"
    using nd a by (simp add: services_def w_indices_create_def Let_def index_names_def log_req_def)
  have s3: "indices_create services ?name False ?w2 = ((None, 200), ?w3)"
    using nd a by (simp add: services_def w_indices_create_def Let_def index_names_def log_req_def)
  have s4: "indices_putMapping services ?name ''envelope'' envelopeMapping ?w3 = (None, ?w4)"
    using nd by (simp add: services_def w_indices_putMapping_def Let_def index_names_def log_req_def)
  have cn: "createNewIndex services ?name ?w2 = (None, ?w4)"
    unfolding createNewIndex_def s3 using s4 by simp
  have rs: "remote_setup services now u = makeIndexActive services ?name ?w4"
    unfolding remote_setup_def s1 using s2 cn by (simp add: Let_def)
  have c4: "calm ?w4" using a by (simp add: calm_def log_req_def)
  have n4: "index_names ?w4 = index_names u @ [''latch'', ?name]"
    by (simp add: index_names_def log_req_def)
  have d4: "distinct (index_names ?w4)"
    unfolding n4 using a by simp
  have in4: "?name \<in> set (index_names ?w4)" unfolding n4 by simp
  have ok: "fst (makeIndexActive services ?name ?w4) = None"
    by (rule makeIndexActive_calm [OF c4 d4 in4])
  then have ok': "makeIndexActive services ?name ?w4 = (None, snd (makeIndexActive services ?name ?w4))"
    by (metis prod.collapse)
  note eff = makeIndexActive_effect [OF ok' envelopes_name_matches]
  show "fst (remote_setup services now u) = None" using ok rs by simp
  show "set (generations (snd (remote_setup services now u))) = {?name}"
    using eff rs by simp
  show "set (alias_holders ''envelopes_current'' (snd (remote_setup services now u))) = {?name}"
    using eff rs by simp
qed

theorem latch_decides_setup_witness:
  "conn_setup services two_generations = (None, log_req Req_setup two_generations)
   \<and> indices_create services ''latch'' True (log_req Req_setup two_generations)
       = ((None, 400), log_req (Req_create ''latch'' True) (log_req Req_setup two_generations))
   \<and> remote_setup services 7 two_generations
       = (None, log_req (Req_create ''latch'' True) (log_req Req_setup two_generations))
   \<and> indices (snd (remote_setup services 7 two_generations)) = indices two_generations
   \<and> calm empty_cluster \<and> distinct (index_names empty_cluster)
   \<and> ''latch'' \<notin> set (index_names empty_cluster)
   \<and> ''envelopes_'' @ show_nat 7 \<notin> set (index_names empty_cluster)
   \<and> fst (remote_setup services 7 empty_cluster) = None
   \<and> set (generations (snd (remote_setup services 7 empty_cluster))) = {''envelopes_'' @ show_nat 7}
   \<and> set (alias_holders ''envelopes_current'' (snd (remote_setup services 7 empty_cluster)))
       = {''envelopes_'' @ show_nat 7}"
proof -
  have s: "conn_setup services two_generations = (None, log_req Req_setup two_generations)"
    by (simp add: services_def w_conn_setup_def down_def two_generations_def)
  have c: "indices_create services ''latch'' True (log_req Req_setup two_generations)
       = ((None, 400), log_req (Req_create ''latch'' True) (log_req Req_setup two_generations))"
    by (simp add: services_def w_indices_create_def down_def two_generations_def log_req_def
        index_names_def Let_def)
  have t: "calm two_generations" "''latch'' \<in> set (index_names two_generations)"
    by (simp_all add: calm_def two_generations_def index_names_def)
  have e: "calm empty_cluster" "distinct (index_names empty_cluster)"
    "''latch'' \<notin> set (index_names empty_cluster)"
    "''envelopes_'' @ show_nat 7 \<notin> set (index_names empty_cluster)"
    by (simp_all add: calm_def empty_cluster_def index_names_def)
  from latch_decides_setup [where conn = services and w = two_generations
      and ?w1.0 = "log_req Req_setup two_generations"
      and ?w2.0 = "log_req (Req_create ''latch'' True) (log_req Req_setup two_generations)"
      and now = 7 and v = two_generations and u = empty_cluster] s c t e
  show ?thesis by blast
qed

section \<open>Properties of src/routes/staging\_content/remove.js\<close>

text \<open>
  Claim C10. With an empty list of contentIDs, \<^verbatim>\<open>removeStagingEnvelopes\<close> calls back
  without an error and leaves the state of the store as it is, whatever the facade:
  the facade that records its calls records none.
\<close>

theorem removeStagingEnvelopes_empty:
  "removeStagingEnvelopes ord st [] s = (None, s)
   \<and> removeStagingEnvelopes ord' recording [] calls = (None, calls)"
  by (simp add: removeStagingEnvelopes_def)

section \<open>Properties of src/routes/staging\_content/bulk.js\<close>

subsection \<open>The queue\<close>

lemma start_tasks_eq:
  "start_tasks w ts ps =
     (w + started w ts, drop (started w ts) ts, ps @ map storeStagingEnvelope (take (started w ts) ts))"
proof (induction ts arbitrary: w ps)
  case Nil
  then show ?case by (simp add: started_def)
next
  case (Cons t ts)
  show ?case
  proof (cases "w < concurrency")
    case True
    then have "started w (t # ts) = Suc (started (Suc w) ts)"
      by (auto simp: started_def min_def)
    with True Cons.IH [of "Suc w" "ps @ [storeStagingEnvelope t]"] show ?thesis by simp
  next
    case False
    then show ?thesis by (simp add: started_def)
  qed
qed

lemma q_process_eq:
  "q_process s =
     s\<lparr>q_workers := q_workers s + started (q_workers s) (q_tasks s),
       q_tasks := drop (started (q_workers s) (q_tasks s)) (q_tasks s),
       par := par s @ map storeStagingEnvelope (take (started (q_workers s) (q_tasks s)) (q_tasks s))\<rparr>"
  by (simp add: q_process_def start_tasks_eq)

lemma started_pos: "ts \<noteq> [] \<Longrightarrow> w < concurrency \<Longrightarrow> 0 < started w ts"
  by (cases ts) (auto simp: started_def)

lemma started_nil [simp]: "started w [] = 0"
  by (simp add: started_def)

lemma min_started [simp]: "min (length ts) (started w ts) = started w ts"
  by (simp add: started_def)

lemma started_bound: "w \<le> concurrency \<Longrightarrow> w + started w ts \<le> concurrency"
  by (simp add: started_def)

lemma concurrency_pos: "0 < concurrency"
  by (simp add: concurrency_def)

lemma new_tasks_uncalled:
  "filter (\<lambda>p. \<not> called p) (map storeStagingEnvelope ts) = map storeStagingEnvelope ts"
  by (induction ts) (auto simp: storeStagingEnvelope_def)

lemma new_tasks_not_ok: "filter both_ok (map storeStagingEnvelope ts) = []"
  by (induction ts) (auto simp: storeStagingEnvelope_def both_ok_def)

lemma new_tasks_par_ok: "list_all par_ok (map storeStagingEnvelope ts)"
  by (induction ts) (auto simp: storeStagingEnvelope_def par_ok_def)

subsection \<open>What the callbacks change\<close>

lemma finishRequest_fields:
  "par (finishRequest s) = par s"
  "q_workers (finishRequest s) = q_workers s"
  "q_tasks (finishRequest s) = q_tasks s"
  "q_drain (finishRequest s) = q_drain s"
  "envelopeCount (finishRequest s) = envelopeCount s"
  "failureCount (finishRequest s) = failureCount s"
  "deletionCount (finishRequest s) = deletionCount s"
  "contentIDBase (finishRequest s) = contentIDBase s"
  "decoder (finishRequest s) = decoder s"
  "streams (finishRequest s) = streams s"
  "toKeep (finishRequest s) = toKeep s"
  "finish_calls (finishRequest s) = Suc (finish_calls s)"
  "sent (finishRequest s) =
     (if truthy (contentIDBase s) then sent s
      else sent s @ [(if failureCount s = 0 then 200 else 500,
                      Report (envelopeCount s) (failureCount s) (deletionCount s))])"
  "recon (finishRequest s) = (if truthy (contentIDBase s) then Listing (contentIDBase s) else recon s)"
  by (simp_all add: finishRequest_def removeDeletedStagingContent_def removal_done_def
      reportCompletion_def Let_def)

lemma drain_fields:
  "par (drain s) = par s"
  "q_workers (drain s) = q_workers s"
  "q_tasks (drain s) = q_tasks s"
  "q_drain (drain s) = q_drain s"
  "envelopeCount (drain s) = envelopeCount s"
  "failureCount (drain s) = failureCount s"
  "deletionCount (drain s) = deletionCount s"
  "contentIDBase (drain s) = contentIDBase s"
  "decoder (drain s) = decoder s"
  "streams (drain s) = streams s"
  "toKeep (drain s) = toKeep s"
  "finish_calls (drain s) = (if q_drain s = FinishRequest then Suc (finish_calls s) else finish_calls s)"
  "sent (drain s) =
     (if q_drain s = FinishRequest \<and> \<not> truthy (contentIDBase s)
      then sent s @ [(if failureCount s = 0 then 200 else 500,
                      Report (envelopeCount s) (failureCount s) (deletionCount s))]
      else sent s)"
  "recon (drain s) =
     (if q_drain s = FinishRequest \<and> truthy (contentIDBase s)
      then Listing (contentIDBase s) else recon s)"
  by (cases "q_drain s"; simp add: drain_def finishRequest_fields)+

lemma q_next_fields:
  "par (q_next s) =
     par s @ map storeStagingEnvelope (take (started (q_workers s - 1) (q_tasks s)) (q_tasks s))"
  "q_workers (q_next s) = q_workers s - 1 + started (q_workers s - 1) (q_tasks s)"
  "q_tasks (q_next s) = drop (started (q_workers s - 1) (q_tasks s)) (q_tasks s)"
  "q_drain (q_next s) = q_drain s"
  "envelopeCount (q_next s) = envelopeCount s"
  "failureCount (q_next s) = failureCount s"
  "deletionCount (q_next s) = deletionCount s"
  "contentIDBase (q_next s) = contentIDBase s"
  "decoder (q_next s) = decoder s"
  "streams (q_next s) = streams s"
  "toKeep (q_next s) = toKeep s"
  "finish_calls (q_next s) =
     (if length (q_tasks s) + (q_workers s - 1) = 0 \<and> q_drain s = FinishRequest
      then Suc (finish_calls s) else finish_calls s)"
  "sent (q_next s) =
     (if length (q_tasks s) + (q_workers s - 1) = 0 \<and> q_drain s = FinishRequest
         \<and> \<not> truthy (contentIDBase s)
      then sent s @ [(if failureCount s = 0 then 200 else 500,
                      Report (envelopeCount s) (failureCount s) (deletionCount s))]
      else sent s)"
  "recon (q_next s) =
     (if length (q_tasks s) + (q_workers s - 1) = 0 \<and> q_drain s = FinishRequest
         \<and> truthy (contentIDBase s)
      then Listing (contentIDBase s) else recon s)"
  by (simp_all add: q_next_def Let_def q_process_eq drain_fields)

lemma envelope_stored_fields:
  "par (envelope_stored err s) =
     par s @ map storeStagingEnvelope (take (started (q_workers s - 1) (q_tasks s)) (q_tasks s))"
  "q_workers (envelope_stored err s) = q_workers s - 1 + started (q_workers s - 1) (q_tasks s)"
  "q_tasks (envelope_stored err s) = drop (started (q_workers s - 1) (q_tasks s)) (q_tasks s)"
  "q_drain (envelope_stored err s) = q_drain s"
  "envelopeCount (envelope_stored err s) = (if err = None then Suc (envelopeCount s) else envelopeCount s)"
  "failureCount (envelope_stored err s) = (if err = None then failureCount s else Suc (failureCount s))"
  "deletionCount (envelope_stored err s) = deletionCount s"
  "contentIDBase (envelope_stored err s) = contentIDBase s"
  "decoder (envelope_stored err s) = decoder s"
  "streams (envelope_stored err s) = streams s"
  "toKeep (envelope_stored err s) = toKeep s"
  "finish_calls (envelope_stored err s) =
     (if length (q_tasks s) + (q_workers s - 1) = 0 \<and> q_drain s = FinishRequest
      then Suc (finish_calls s) else finish_calls s)"
  "recon (envelope_stored err s) =
     (if length (q_tasks s) + (q_workers s - 1) = 0 \<and> q_drain s = FinishRequest
         \<and> truthy (contentIDBase s)
      then Listing (contentIDBase s) else recon s)"
  by (cases err; simp add: envelope_stored_def q_next_fields reportError_def Let_def)+

lemma envelope_stored_sent:
  "sent (envelope_stored err s) =
     (if length (q_tasks s) + (q_workers s - 1) = 0 \<and> q_drain s = FinishRequest
         \<and> \<not> truthy (contentIDBase s)
      then sent s @ [(if failureCount (envelope_stored err s) = 0 then 200 else 500,
                     Report (envelopeCount (envelope_stored err s))
                       (failureCount (envelope_stored err s)) (deletionCount s))]
      else sent s)"
  by (cases err; simp add: envelope_stored_def q_next_fields reportError_def Let_def)

subsection \<open>Counting in a list that is updated in one place\<close>

lemma filter_update_count:
  "k < length xs \<Longrightarrow>
     length (filter P (xs[k := y])) + (if P (xs ! k) then 1 else 0)
       = length (filter P xs) + (if P y then 1 else 0)"
proof (induction xs arbitrary: k)
  case Nil
  then show ?case by simp
next
  case (Cons x xs)
  then show ?case by (cases k) auto
qed

lemma sum_update_count:
  "k < length xs \<Longrightarrow>
     (\<Sum>x\<leftarrow>xs[k := y]. (f x :: nat)) + f (xs ! k) = (\<Sum>x\<leftarrow>xs. f x) + f y"
proof (induction xs arbitrary: k)
  case Nil
  then show ?case by simp
next
  case (Cons x xs)
  then show ?case by (cases k) auto
qed

lemma list_all_update: "list_all P xs \<Longrightarrow> P y \<Longrightarrow> list_all P (xs[k := y])"
  by (induction xs arbitrary: k) (auto split: nat.splits)

lemma uncalled_counted:
  "k < length xs \<Longrightarrow> \<not> called (xs ! k) \<Longrightarrow> 0 < length (filter (\<lambda>p. \<not> called p) xs)"
  by (induction xs arbitrary: k) (auto split: nat.splits simp: nth_Cons)

lemma counted_uncalled:
  "0 < length (filter P xs) \<Longrightarrow> \<exists>k < length xs. P (xs ! k)"
  by (induction xs) (auto split: if_splits)

subsection \<open>One write answers\<close>

lemma set_op_called [simp]: "called (set_op which r p) = called p"
  by (simp add: set_op_def split: which_op.splits)

lemma set_op_late:
  "par_ok p \<Longrightarrow> called p \<Longrightarrow> get_op which p = Pending \<Longrightarrow>
     par_ok (set_op which r p) \<and> \<not> both_ok (set_op which r p)"
  by (cases which) (auto simp: par_ok_def both_ok_def set_op_def get_op_def)

lemma set_op_wait:
  "par_ok p \<Longrightarrow> \<not> called p \<Longrightarrow> other_op which p = Pending \<Longrightarrow>
     par_ok (set_op which None p) \<and> \<not> both_ok (set_op which None p)"
  by (cases which) (auto simp: par_ok_def both_ok_def set_op_def other_op_def)

lemma op_state_cases: "x = Pending \<or> x = Done None \<or> failed_op x"
  by (cases x rule: failed_op.cases) auto

lemma set_op_fire:
  assumes "par_ok p" "\<not> called p" "get_op which p = Pending"
    "r \<noteq> None \<or> other_op which p \<noteq> Pending"
  shows "par_ok ((set_op which r p)\<lparr>called := True\<rparr>)
     \<and> (both_ok ((set_op which r p)\<lparr>called := True\<rparr>) \<longleftrightarrow> r = None)"
proof (cases which)
  case Store
  with assms op_state_cases [of "index_op p"] show ?thesis
    by (cases r) (auto simp: par_ok_def both_ok_def set_op_def other_op_def get_op_def)
next
  case Index
  with assms op_state_cases [of "store_op p"] show ?thesis
    by (cases r) (auto simp: par_ok_def both_ok_def set_op_def other_op_def get_op_def)
qed

text \<open>The three ways \<^verbatim>\<open>async.parallel\<close> handles an answer.\<close>

lemma parallel_done_late:
  "called (par s ! k) \<Longrightarrow>
     parallel_done k which r s = s\<lparr>par := (par s)[k := set_op which r (par s ! k)]\<rparr>"
  by (simp add: parallel_done_def Let_def)

lemma parallel_done_wait:
  "\<not> called (par s ! k) \<Longrightarrow> other_op which (par s ! k) = Pending \<Longrightarrow>
     parallel_done k which None s = s\<lparr>par := (par s)[k := set_op which None (par s ! k)]\<rparr>"
  by (simp add: parallel_done_def Let_def)

lemma parallel_done_fire:
  "\<not> called (par s ! k) \<Longrightarrow> r \<noteq> None \<or> other_op which (par s ! k) \<noteq> Pending \<Longrightarrow>
     parallel_done k which r s =
       envelope_stored r (s\<lparr>par := (par s)[k := (set_op which r (par s ! k))\<lparr>called := True\<rparr>]\<rparr>)"
  by (cases r) (auto simp: parallel_done_def Let_def)

subsection \<open>The accounting is kept\<close>

lemma accounting_update:
  assumes acc: "accounting s" and k: "k < length (par s)"
    and ok: "par_ok q" and same: "called q = called (par s ! k)"
    and nok: "\<not> both_ok (par s ! k)" "\<not> both_ok q"
  shows "accounting (s\<lparr>par := (par s)[k := q]\<rparr>)"
  using acc filter_update_count [OF k, of "\<lambda>p. \<not> called p" q]
    filter_update_count [OF k, of both_ok q] ok same nok
  unfolding accounting_def accepted_tasks_def
  by (simp add: list_all_update)

lemma accounting_fire:
  assumes acc: "accounting s" and k: "k < length (par s)"
    and unc: "\<not> called (par s ! k)" and nok: "\<not> both_ok (par s ! k)"
    and ok: "par_ok q" and c: "called q" and b: "both_ok q \<longleftrightarrow> r = None"
  shows "accounting (envelope_stored r (s\<lparr>par := (par s)[k := q]\<rparr>))"
proof -
  define s1 where "s1 = s\<lparr>par := (par s)[k := q]\<rparr>"
  have f1: "par s1 = (par s)[k := q]" "q_workers s1 = q_workers s"
    "q_tasks s1 = q_tasks s" "envelopeCount s1 = envelopeCount s"
    by (simp_all add: s1_def)
  have u: "length (filter (\<lambda>p. \<not> called p) ((par s)[k := q])) + 1
             = length (filter (\<lambda>p. \<not> called p) (par s))"
    using filter_update_count [OF k, of "\<lambda>p. \<not> called p" q] unc c by simp
  have o: "length (filter both_ok ((par s)[k := q]))
             = length (filter both_ok (par s)) + (if r = None then 1 else 0)"
    using filter_update_count [OF k, of both_ok q] nok b by simp
  have la: "list_all par_ok ((par s)[k := q])"
    using acc ok by (simp add: accounting_def list_all_update)
  have w: "q_workers s - 1 = length (filter (\<lambda>p. \<not> called p) ((par s)[k := q]))"
    using acc u by (simp add: accounting_def)
  have e: "envelopeCount s = length (filter both_ok (par s))"
    using acc by (simp add: accounting_def accepted_tasks_def)
  have "q_workers s \<le> concurrency"
    using acc by (simp add: accounting_def)
  then have "q_workers s - 1 \<le> concurrency"
    by arith
  then have bd: "length (filter (\<lambda>p. \<not> called p) ((par s)[k := q]))
        + started (length (filter (\<lambda>p. \<not> called p) ((par s)[k := q]))) (q_tasks s) \<le> concurrency"
    unfolding w by (rule started_bound)
  show ?thesis
    unfolding s1_def [symmetric] accounting_def accepted_tasks_def envelope_stored_fields f1 w e
    using o la bd
    by (simp add: new_tasks_uncalled new_tasks_not_ok new_tasks_par_ok)
qed

lemma accounting_parallel_done:
  assumes acc: "accounting s" and k: "k < length (par s)"
    and pend: "get_op which (par s ! k) = Pending"
  shows "accounting (parallel_done k which r s)"
proof -
  define p where "p = par s ! k"
  have pok: "par_ok p"
    using acc k unfolding p_def accounting_def by (simp add: list_all_length)
  have notok: "\<not> both_ok p"
    using pend unfolding p_def both_ok_def get_op_def by (cases which) auto
  show ?thesis
  proof (cases "called p")
    case True
    then have eq: "parallel_done k which r s = s\<lparr>par := (par s)[k := set_op which r p]\<rparr>"
      unfolding p_def by (rule parallel_done_late)
    show ?thesis
      unfolding eq
      using set_op_late [OF pok True, of which r] pend notok
      by (intro accounting_update [OF acc k]) (simp_all add: p_def)
  next
    case False
    show ?thesis
    proof (cases "r = None \<and> other_op which p = Pending")
      case True
      with False have eq: "parallel_done k which r s = s\<lparr>par := (par s)[k := set_op which None p]\<rparr>"
        unfolding p_def by (simp add: parallel_done_wait)
      show ?thesis
        unfolding eq
        using set_op_wait [OF pok False, of which] True notok
        by (intro accounting_update [OF acc k]) (simp_all add: p_def)
    next
      case fire: False
      with False have eq: "parallel_done k which r s
                  = envelope_stored r (s\<lparr>par := (par s)[k := (set_op which r p)\<lparr>called := True\<rparr>]\<rparr>)"
        unfolding p_def by (intro parallel_done_fire) auto
      show ?thesis
        unfolding eq
        using set_op_fire [OF pok False, of which r] pend fire False notok
        by (intro accounting_fire [OF acc k]) (simp_all add: p_def)
    qed
  qed
qed

lemma accounting_frame:
  "par s' = par s \<Longrightarrow> q_workers s' = q_workers s \<Longrightarrow> envelopeCount s' = envelopeCount s
     \<Longrightarrow> accounting s' = accounting s"
  by (simp add: accounting_def accepted_tasks_def)

lemma accounting_q_process: "accounting s \<Longrightarrow> accounting (q_process s)"
  by (simp add: accounting_def q_process_eq accepted_tasks_def new_tasks_uncalled
      new_tasks_not_ok new_tasks_par_ok started_bound)

subsection \<open>The completion protocol is kept\<close>

lemma protocol_fire:
  assumes pr: "protocol s" and w: "0 < q_workers s" and b: "q_workers s \<le> concurrency"
  shows "protocol (envelope_stored r s)"
proof (cases "decoder s = Finished")
  case False
  with pr show ?thesis
    by (simp add: protocol_def envelope_stored_fields)
next
  case True
  show ?thesis
  proof (cases "q_tasks s = [] \<and> q_workers s = 1")
    case True
    with pr w \<open>decoder s = Finished\<close> show ?thesis
      by (auto simp: protocol_def envelope_stored_fields)
  next
    case False
    from w b concurrency_pos have lt: "q_workers s - 1 < concurrency" by arith
    have pos: "0 < q_workers s - 1 + started (q_workers s - 1) (q_tasks s)"
    proof (cases "q_workers s - 1 = 0")
      case True
      with False w have "q_tasks s \<noteq> []" by auto
      from started_pos [OF this lt] show ?thesis by simp
    next
      case False
      then show ?thesis by simp
    qed
    from False w have nz: "length (q_tasks s) + (q_workers s - 1) \<noteq> 0"
      by (cases "q_tasks s") auto
    from pr w \<open>decoder s = Finished\<close> pos nz show ?thesis
      by (auto simp: protocol_def envelope_stored_fields)
  qed
qed

lemma protocol_par_update: "protocol (s\<lparr>par := ps\<rparr>) = protocol s"
  by (simp add: protocol_def)

lemma protocol_parallel_done:
  assumes pr: "protocol s" and acc: "accounting s" and k: "k < length (par s)"
  shows "protocol (parallel_done k which r s)"
proof (cases "called (par s ! k)")
  case True
  then show ?thesis using pr
    by (simp add: parallel_done_late protocol_par_update)
next
  case False
  have wpos: "0 < q_workers s" and wb: "q_workers s \<le> concurrency"
    using acc uncalled_counted [OF k False] by (simp_all add: accounting_def)
  show ?thesis
  proof (cases "r = None \<and> other_op which (par s ! k) = Pending")
    case True
    with False pr show ?thesis
      by (simp add: parallel_done_wait protocol_par_update)
  next
    case fire: False
    with False have eq: "parallel_done k which r s
        = envelope_stored r (s\<lparr>par := (par s)[k := (set_op which r (par s ! k))\<lparr>called := True\<rparr>]\<rparr>)"
      by (intro parallel_done_fire) auto
    show ?thesis
      unfolding eq using pr wpos wb
      by (intro protocol_fire) (simp_all add: protocol_par_update)
  qed
qed

lemma protocol_frame:
  "decoder s' = decoder s \<Longrightarrow> streams s' = streams s \<Longrightarrow> finish_calls s' = finish_calls s
     \<Longrightarrow> q_drain s' = q_drain s \<Longrightarrow> q_tasks s' = q_tasks s \<Longrightarrow> q_workers s' = q_workers s
     \<Longrightarrow> protocol s' = protocol s"
  by (simp add: protocol_def)

lemma protocol_q_process: "protocol s \<Longrightarrow> protocol (q_process s)"
  by (auto simp: protocol_def q_process_eq split: if_splits)

subsection \<open>The responses are kept\<close>

lemma responses_fire:
  assumes "responses_ok s" "protocol s" "0 < q_workers s"
  shows "responses_ok (envelope_stored r s)"
proof (cases "decoder s = Finished")
  case False
  with assms(2) have "q_drain s = Noop" by (simp add: protocol_def)
  with assms(1) show ?thesis
    by (simp add: responses_ok_def envelope_stored_fields envelope_stored_sent)
next
  case True
  show ?thesis
  proof (cases "length (q_tasks s) + (q_workers s - 1) = 0 \<and> q_drain s = FinishRequest")
    case False
    then have "sent (envelope_stored r s) = sent s" "recon (envelope_stored r s) = recon s"
      "finish_calls (envelope_stored r s) = finish_calls s"
      by (auto simp: envelope_stored_fields envelope_stored_sent)
    with assms True show ?thesis
      by (simp add: responses_ok_def envelope_stored_fields)
  next
    case fire: True
    with assms True have fc: "finish_calls s = 0"
      by (auto simp: protocol_def)
    with assms(1) True have "recon s = Not_started \<and> sent s = []"
      by (cases "recon s") (auto simp: responses_ok_def)
    with fire fc True show ?thesis
      by (simp add: responses_ok_def envelope_stored_fields envelope_stored_sent)
  qed
qed

lemma responses_par_update: "responses_ok (s\<lparr>par := ps\<rparr>) = responses_ok s"
  by (simp add: responses_ok_def)

lemma responses_parallel_done:
  assumes pr: "protocol s" and rs: "responses_ok s" and acc: "accounting s"
    and k: "k < length (par s)"
  shows "responses_ok (parallel_done k which r s)"
proof (cases "called (par s ! k)")
  case True
  then show ?thesis using rs
    by (simp add: parallel_done_late responses_par_update)
next
  case False
  have wpos: "0 < q_workers s"
    using acc uncalled_counted [OF k False] by (simp add: accounting_def)
  show ?thesis
  proof (cases "r = None \<and> other_op which (par s ! k) = Pending")
    case True
    with False rs show ?thesis
      by (simp add: parallel_done_wait responses_par_update)
  next
    case fire: False
    with False have eq: "parallel_done k which r s
        = envelope_stored r (s\<lparr>par := (par s)[k := (set_op which r (par s ! k))\<lparr>called := True\<rparr>]\<rparr>)"
      by (intro parallel_done_fire) auto
    show ?thesis
      unfolding eq using pr rs wpos
      by (intro responses_fire) (simp_all add: protocol_par_update responses_par_update)
  qed
qed

subsection \<open>The entries change neither the queue nor the completion\<close>

lemma on_entry_fields:
  "par (on_entry rt t n s) = par s"
  "q_workers (on_entry rt t n s) = q_workers s"
  "q_tasks (on_entry rt t n s) = q_tasks s"
  "q_drain (on_entry rt t n s) = q_drain s"
  "envelopeCount (on_entry rt t n s) = envelopeCount s"
  "failureCount (on_entry rt t n s) = failureCount s"
  "finish_calls (on_entry rt t n s) = finish_calls s"
  "sent (on_entry rt t n s) = sent s"
  "recon (on_entry rt t n s) = recon s"
  by (auto simp: on_entry_def Let_def open_stream_def handleStagingEnvelopeEntry_def
      split: option.splits)

lemma on_entry_decoder:
  "decoder s = Decoding \<Longrightarrow>
     decoder (on_entry rt t n s) = Decoding \<or> decoder (on_entry rt t n s) = Stalled"
  by (auto simp: on_entry_def Let_def open_stream_def handleStagingEnvelopeEntry_def
      split: option.splits)

lemma add_key_subset: "set ks \<subseteq> set (add_key k ks)"
  by (auto simp: add_key_def)

lemma fold_add_key_subset: "set ks \<subseteq> set (fold (\<lambda>x. add_key (f x)) xs ks)"
proof (induction xs arbitrary: ks)
  case Nil
  then show ?case by simp
next
  case (Cons x xs)
  have "set ks \<subseteq> set (add_key (f x) ks)" by (rule add_key_subset)
  also have "\<dots> \<subseteq> set (fold (\<lambda>x. add_key (f x)) xs (add_key (f x) ks))" by (rule Cons.IH)
  finally show ?case by simp
qed

lemma on_entry_toKeep: "set (toKeep s) \<subseteq> set (toKeep (on_entry rt t n s))"
  using add_key_subset
  by (auto simp: on_entry_def Let_def open_stream_def handleStagingEnvelopeEntry_def
      split: option.splits)

lemma config_parsed_quiet: "config_parsed entryPath r s = Inr s' \<Longrightarrow> quiet s s'"
  by (auto simp: config_parsed_def quiet_def reportError_def split: sum.splits if_splits)

lemma keep_parsed_quiet: "keep_parsed rt entryPath r s = Inr s' \<Longrightarrow> quiet s s'"
  by (auto simp: keep_parsed_def quiet_def reportError_def
      dest: subsetD [OF fold_add_key_subset]
      split: sum.splits if_splits jsval.splits)

lemma envelope_parsed_quiet: "envelope_parsed c entryPath r s = Inr s' \<Longrightarrow> quiet s s'"
  by (auto simp: envelope_parsed_def quiet_def reportError_def q_push_def split: sum.splits if_splits)

lemma jsonFromStream_quiet:
  assumes "\<And>r s s'. cb r s = Inr s' \<Longrightarrow> quiet s s'"
  shows "jsonFromStream cb r s = Inr s' \<Longrightarrow> quiet s s'"
  using assms by (auto simp: jsonFromStream_def split: sum.splits)

lemma on_stream_end_quiet:
  "quiet (s\<lparr>streams := take i (streams s) @ drop (Suc i) (streams s)\<rparr>) (on_stream_end rt i r s)
   \<or> (\<exists>x. on_stream_end rt i r s = s\<lparr>streams := take i (streams s) @ drop (Suc i) (streams s),
                uncaught := uncaught s @ [x]\<rparr>)"
proof -
  define s1 where "s1 = s\<lparr>streams := take i (streams s) @ drop (Suc i) (streams s)\<rparr>"
  define cb where "cb = (case fst (streams s ! i) of
                        Config_stream \<Rightarrow> config_parsed (snd (streams s ! i))
                      | Keep_stream \<Rightarrow> keep_parsed rt (snd (streams s ! i))
                      | Envelope_stream contentID \<Rightarrow> envelope_parsed contentID (snd (streams s ! i)))"
  have q: "\<And>r s s'. cb r s = Inr s' \<Longrightarrow> quiet s s'"
    unfolding cb_def
    by (auto split: stream_kind.splits
        intro: config_parsed_quiet keep_parsed_quiet envelope_parsed_quiet)
  have eq: "on_stream_end rt i r s =
       (case jsonFromStream cb r s1 of Inl x \<Rightarrow> s1\<lparr>uncaught := uncaught s1 @ [x]\<rparr> | Inr s2 \<Rightarrow> s2)"
    unfolding on_stream_end_def Let_def s1_def cb_def by simp
  show ?thesis
  proof (cases "jsonFromStream cb r s1")
    case (Inl x)
    then show ?thesis unfolding eq by (auto simp: s1_def)
  next
    case (Inr s2)
    from jsonFromStream_quiet [of cb, OF q Inr] show ?thesis
      unfolding eq s1_def [symmetric] using Inr by simp
  qed
qed

subsection \<open>The reconciliation\<close>

lemma removeEnvelopes_unbound: "\<not> removeEnvelopes_bound"
  by (simp add: removeEnvelopes_bound_def remove_exports_def)

lemma removal_done_fields:
  "par (removal_done err s) = par s"
  "q_workers (removal_done err s) = q_workers s"
  "q_tasks (removal_done err s) = q_tasks s"
  "q_drain (removal_done err s) = q_drain s"
  "envelopeCount (removal_done err s) = envelopeCount s"
  "failureCount (removal_done err s) = failureCount s"
  "deletionCount (removal_done err s) = deletionCount s"
  "decoder (removal_done err s) = decoder s"
  "streams (removal_done err s) = streams s"
  "finish_calls (removal_done err s) = finish_calls s"
  "toKeep (removal_done err s) = toKeep s"
  "recon (removal_done err s) = recon s"
  "sent (removal_done err s) =
     sent s @ [(if failureCount s = 0 then 200 else 500,
                Report (envelopeCount s) (failureCount s) (deletionCount s))]"
  by (simp_all add: removal_done_def reportCompletion_def reportError_def Let_def
      split: option.splits)

lemma listing_done_fields:
  "par (listing_done r s) = par s"
  "q_workers (listing_done r s) = q_workers s"
  "q_tasks (listing_done r s) = q_tasks s"
  "q_drain (listing_done r s) = q_drain s"
  "envelopeCount (listing_done r s) = envelopeCount s"
  "failureCount (listing_done r s) = failureCount s"
  "decoder (listing_done r s) = decoder s"
  "streams (listing_done r s) = streams s"
  "finish_calls (listing_done r s) = finish_calls s"
  "toKeep (listing_done r s) = toKeep s"
  "recon (listing_done r s) = Recon_done"
  by (simp_all add: listing_done_def removal_done_fields removeEnvelopes_unbound Let_def
      split: sum.splits)

lemma listing_done_sent:
  "sent (listing_done (Inl e) s) =
     sent s @ [(if failureCount s = 0 then 200 else 500,
                Report (envelopeCount s) (failureCount s) (deletionCount s))]"
  "deletionCount (listing_done (Inl e) s) = deletionCount s"
  "sent (listing_done (Inr ids) s) = sent s"
  "deletionCount (listing_done (Inr ids) s) = length (toDelete_of ids (toKeep s))"
  "uncaught (listing_done (Inr ids) s) = uncaught s @ [TypeError ''removeEnvelopes is not a function'']"
  by (simp_all add: listing_done_def removal_done_fields removeEnvelopes_unbound Let_def)

lemma envelopes_removed_fields:
  "par (envelopes_removed err s) = par s"
  "q_workers (envelopes_removed err s) = q_workers s"
  "q_tasks (envelopes_removed err s) = q_tasks s"
  "q_drain (envelopes_removed err s) = q_drain s"
  "envelopeCount (envelopes_removed err s) = envelopeCount s"
  "failureCount (envelopes_removed err s) = failureCount s"
  "deletionCount (envelopes_removed err s) = deletionCount s"
  "decoder (envelopes_removed err s) = decoder s"
  "streams (envelopes_removed err s) = streams s"
  "finish_calls (envelopes_removed err s) = finish_calls s"
  "toKeep (envelopes_removed err s) = toKeep s"
  "recon (envelopes_removed err s) = Recon_done"
  "sent (envelopes_removed err s) =
     sent s @ [(if failureCount s = 0 then 200 else 500,
                Report (envelopeCount s) (failureCount s) (deletionCount s))]"
  by (simp_all add: envelopes_removed_def removal_done_fields)

subsection \<open>Every step keeps the invariant\<close>

lemma init_inv: "request_ok init"
  by (simp add: request_ok_def accounting_def protocol_def responses_ok_def init_def accepted_tasks_def)

lemma inv_entry:
  assumes "request_ok s" "decoder s = Decoding"
  shows "request_ok (on_entry rt t n s)"
proof -
  have a: "accounting (on_entry rt t n s) = accounting s"
    by (rule accounting_frame) (simp_all add: on_entry_fields)
  from assms on_entry_decoder [OF assms(2), of rt t n] a show ?thesis
    unfolding request_ok_def protocol_def responses_ok_def
    by (auto simp: on_entry_fields)
qed

lemma inv_stream_end:
  assumes "request_ok s" "i < length (streams s)"
  shows "request_ok (on_stream_end rt i r s)"
proof -
  define s1 where "s1 = s\<lparr>streams := take i (streams s) @ drop (Suc i) (streams s)\<rparr>"
  from assms have d: "decoder s \<noteq> Finished"
    by (auto simp: request_ok_def protocol_def)
  from on_stream_end_quiet [where s = s and i = i and r = r and rt = rt]
  have "quiet s1 (on_stream_end rt i r s)
      \<or> (\<exists>x. on_stream_end rt i r s = s1\<lparr>uncaught := uncaught s @ [x]\<rparr>)"
    unfolding s1_def by simp
  then show ?thesis
  proof
    assume "quiet s1 (on_stream_end rt i r s)"
    with assms(1) d show ?thesis
      unfolding request_ok_def accounting_def accepted_tasks_def protocol_def responses_ok_def quiet_def s1_def
      by auto
  next
    assume "\<exists>x. on_stream_end rt i r s = s1\<lparr>uncaught := uncaught s @ [x]\<rparr>"
    then obtain x where "on_stream_end rt i r s = s1\<lparr>uncaught := uncaught s @ [x]\<rparr>" ..
    with assms(1) d show ?thesis
      unfolding request_ok_def accounting_def accepted_tasks_def protocol_def responses_ok_def s1_def
      by auto
  qed
qed

lemma inv_error:
  assumes "request_ok s" "decoder s = Decoding"
  shows "request_ok (on_error e s)"
  using assms
  unfolding request_ok_def accounting_def accepted_tasks_def protocol_def responses_ok_def on_error_def
  by simp

lemma inv_gunzip_error:
  assumes "request_ok s" "decoder s \<noteq> Finished"
  shows "request_ok (on_gunzip_error e s)"
  using assms
  unfolding request_ok_def accounting_def accepted_tasks_def protocol_def responses_ok_def
    on_gunzip_error_def
  by (cases "decoder s") auto

lemma inv_finish:
  assumes "request_ok s" "decoder s = Decoding" "streams s = []"
  shows "request_ok (on_finish s)"
proof (cases "q_workers s = 0")
  case True
  then have eq: "on_finish s = finishRequest (s\<lparr>decoder := Finished\<rparr>)"
    by (simp add: on_finish_def q_running_def Let_def)
  have a: "accounting (on_finish s) = accounting s"
    unfolding eq by (rule accounting_frame) (simp_all add: finishRequest_fields)
  from assms True a show ?thesis
    unfolding request_ok_def protocol_def responses_ok_def eq
    by (simp add: finishRequest_fields)
next
  case False
  then have eq: "on_finish s = s\<lparr>decoder := Finished, q_drain := FinishRequest\<rparr>"
    by (simp add: on_finish_def q_running_def Let_def)
  from assms False show ?thesis
    unfolding request_ok_def accounting_def accepted_tasks_def protocol_def responses_ok_def eq
    by simp
qed

lemma inv_process:
  assumes "request_ok s"
  shows "request_ok (q_process s)"
proof -
  have "responses_ok (q_process s) = responses_ok s"
    by (simp add: responses_ok_def q_process_eq)
  with assms accounting_q_process [of s] protocol_q_process [of s] show ?thesis
    by (simp add: request_ok_def)
qed

lemma inv_write_done:
  assumes "request_ok s" "k < length (par s)" "get_op which (par s ! k) = Pending"
  shows "request_ok (parallel_done k which r s)"
  using assms accounting_parallel_done protocol_parallel_done responses_parallel_done
  by (simp add: request_ok_def)

lemma listing_is_finished: "request_ok s \<Longrightarrow> recon s \<noteq> Not_started \<Longrightarrow> decoder s = Finished"
  by (cases "decoder s") (auto simp: request_ok_def responses_ok_def)

lemma inv_listed:
  assumes "request_ok s" "recon s = Listing p"
  shows "request_ok (listing_done r s)"
proof -
  from assms have d: "decoder s = Finished"
    by (intro listing_is_finished) auto
  with assms have f: "sent s = []" "finish_calls s = 1"
    by (auto simp: request_ok_def responses_ok_def)
  have a: "accounting (listing_done r s) = accounting s"
    by (rule accounting_frame) (simp_all add: listing_done_fields)
  have p: "protocol (listing_done r s) = protocol s"
    by (rule protocol_frame) (simp_all add: listing_done_fields)
  have "responses_ok (listing_done r s)"
    using d f by (cases r) (simp_all add: responses_ok_def listing_done_fields listing_done_sent)
  with assms a p show ?thesis by (simp add: request_ok_def)
qed

lemma inv_removed:
  assumes "request_ok s" "recon s = Removing ids"
  shows "request_ok (envelopes_removed r s)"
proof -
  from assms have d: "decoder s = Finished"
    by (intro listing_is_finished) auto
  with assms have f: "sent s = []" "finish_calls s = 1"
    by (auto simp: request_ok_def responses_ok_def)
  have a: "accounting (envelopes_removed r s) = accounting s"
    by (rule accounting_frame) (simp_all add: envelopes_removed_fields)
  have p: "protocol (envelopes_removed r s) = protocol s"
    by (rule protocol_frame) (simp_all add: envelopes_removed_fields)
  have "responses_ok (envelopes_removed r s)"
    using d f by (simp add: responses_ok_def envelopes_removed_fields)
  with assms a p show ?thesis by (simp add: request_ok_def)
qed

lemma inv_step:
  assumes "request_ok s" and "step rt ev s = Some s'"
  shows "request_ok s'"
proof (cases ev)
  case (Entry t n)
  with assms show ?thesis by (auto split: if_splits intro: inv_entry)
next
  case (Stream_end i r)
  with assms show ?thesis by (auto split: if_splits intro: inv_stream_end)
next
  case (Extract_error e)
  with assms show ?thesis by (auto split: if_splits intro: inv_error)
next
  case (Gunzip_error e)
  with assms show ?thesis by (auto split: if_splits intro: inv_gunzip_error)
next
  case Finish
  with assms show ?thesis by (auto split: if_splits intro: inv_finish)
next
  case Process
  with assms show ?thesis by (auto intro: inv_process)
next
  case (Write_done k which r)
  with assms show ?thesis by (auto split: if_splits intro: inv_write_done)
next
  case (Listed r)
  with assms show ?thesis by (auto split: recon_state.splits intro: inv_listed)
next
  case (Removed r)
  with assms show ?thesis by (auto split: recon_state.splits intro: inv_removed)
qed

lemma inv_run: "request_ok s \<Longrightarrow> run rt evs s = Some s' \<Longrightarrow> request_ok s'"
proof (induction evs arbitrary: s)
  case Nil
  then show ?case by simp
next
  case (Cons e es)
  then show ?case
    by (auto split: option.splits dest: inv_step)
qed

lemma reachable_inv: "run rt evs init = Some s \<Longrightarrow> request_ok s"
  by (rule inv_run [OF init_inv])

subsection \<open>toKeep only grows\<close>

lemma parallel_done_toKeep: "toKeep (parallel_done k which r s) = toKeep s"
  by (cases r) (auto simp: parallel_done_def Let_def envelope_stored_fields)

lemma on_stream_end_toKeep: "set (toKeep s) \<subseteq> set (toKeep (on_stream_end rt i r s))"
  using on_stream_end_quiet [where s = s and i = i and r = r and rt = rt]
  by (auto simp: quiet_def)

lemma step_toKeep:
  assumes "step rt ev s = Some s'"
  shows "set (toKeep s) \<subseteq> set (toKeep s')"
proof (cases ev)
  case (Entry t n)
  with assms on_entry_toKeep [of s rt t n] show ?thesis by (auto split: if_splits)
next
  case (Stream_end i r)
  with assms on_stream_end_toKeep [of s rt i r] show ?thesis by (auto split: if_splits)
next
  case (Extract_error e)
  with assms show ?thesis by (auto simp: on_error_def split: if_splits)
next
  case (Gunzip_error e)
  with assms show ?thesis by (auto simp: on_gunzip_error_def split: if_splits)
next
  case Finish
  with assms show ?thesis
    by (auto simp: on_finish_def Let_def finishRequest_fields split: if_splits)
next
  case Process
  with assms show ?thesis by (auto simp: q_process_eq)
next
  case (Write_done k which r)
  with assms show ?thesis by (auto simp: parallel_done_toKeep split: if_splits)
next
  case (Listed r)
  with assms show ?thesis by (auto simp: listing_done_fields split: recon_state.splits)
next
  case (Removed r)
  with assms show ?thesis by (auto simp: envelopes_removed_fields split: recon_state.splits)
qed

lemma run_toKeep: "run rt evs s = Some s' \<Longrightarrow> set (toKeep s) \<subseteq> set (toKeep s')"
proof (induction evs arbitrary: s)
  case Nil
  then show ?case by simp
next
  case (Cons e es)
  then obtain s1 where 1: "step rt e s = Some s1" and 2: "run rt es s1 = Some s'"
    by (auto split: option.splits)
  from step_toKeep [OF 1] Cons.IH [OF 2] show ?case by blast
qed

subsection \<open>The writes still to come\<close>

lemma pending_new_tasks:
  "(\<Sum>t\<leftarrow>ts. pending_op (store_op (storeStagingEnvelope t))
            + pending_op (index_op (storeStagingEnvelope t))) = 2 * length ts"
  by (induction ts) (auto simp: storeStagingEnvelope_def)

lemma pending_after_process:
  assumes "q_tasks s' = drop (started w (q_tasks s)) (q_tasks s)"
    and "par s' = ps @ map storeStagingEnvelope (take (started w (q_tasks s)) (q_tasks s))"
  shows "pending_writes s' =
           2 * length (q_tasks s) + (\<Sum>p\<leftarrow>ps. pending_op (store_op p) + pending_op (index_op p))"
proof -
  have le: "started w (q_tasks s) \<le> length (q_tasks s)" by (simp add: started_def)
  have "pending_writes s' =
          2 * (length (q_tasks s) - started w (q_tasks s))
          + ((\<Sum>p\<leftarrow>ps. pending_op (store_op p) + pending_op (index_op p))
             + 2 * started w (q_tasks s))"
    unfolding pending_writes_def assms
    by (simp add: pending_new_tasks o_def)
  with le show ?thesis by arith
qed

lemma q_process_decoder: "decoder (q_process s) = decoder s"
  by (simp add: q_process_eq)

lemma pending_q_process: "pending_writes (q_process s) = pending_writes s"
  by (subst pending_after_process [where s = s and w = "q_workers s" and ps = "par s"])
     (simp_all add: q_process_eq pending_writes_def)

lemma pending_envelope_stored: "pending_writes (envelope_stored r s) = pending_writes s"
  by (subst pending_after_process [where s = s and w = "q_workers s - 1" and ps = "par s"])
     (simp_all add: envelope_stored_fields pending_writes_def)

lemma pending_par_update:
  assumes "k < length (par s)"
    and "pending_op (store_op q) + pending_op (index_op q) + 1
           = pending_op (store_op (par s ! k)) + pending_op (index_op (par s ! k))"
  shows "pending_writes (s\<lparr>par := (par s)[k := q]\<rparr>) + 1 = pending_writes s"
  using sum_update_count [OF assms(1),
      of "\<lambda>p. pending_op (store_op p) + pending_op (index_op p)" q] assms(2)
  by (simp add: pending_writes_def)

lemma pending_set_op:
  "get_op which p = Pending \<Longrightarrow>
     pending_op (store_op (set_op which r p)) + pending_op (index_op (set_op which r p)) + 1
       = pending_op (store_op p) + pending_op (index_op p)"
  by (cases which) (auto simp: set_op_def get_op_def)

lemma pending_parallel_done:
  assumes k: "k < length (par s)" and pend: "get_op which (par s ! k) = Pending"
  shows "pending_writes (parallel_done k which r s) + 1 = pending_writes s"
proof -
  define p where "p = par s ! k"
  have 1: "pending_writes (s\<lparr>par := (par s)[k := set_op which r p]\<rparr>) + 1 = pending_writes s"
    using pending_set_op [OF pend, of r] by (intro pending_par_update [OF k]) (simp add: p_def)
  have 2: "pending_writes (s\<lparr>par := (par s)[k := (set_op which r p)\<lparr>called := True\<rparr>]\<rparr>) + 1
             = pending_writes s"
    using pending_set_op [OF pend, of r] by (intro pending_par_update [OF k]) (simp add: p_def)
  show ?thesis
  proof (cases "called p")
    case True
    then show ?thesis using 1 by (simp add: parallel_done_late p_def)
  next
    case False
    show ?thesis
    proof (cases "r = None \<and> other_op which p = Pending")
      case True
      with False 1 show ?thesis by (simp add: parallel_done_wait p_def)
    next
      case fire: False
      with False have "parallel_done k which r s
          = envelope_stored r (s\<lparr>par := (par s)[k := (set_op which r p)\<lparr>called := True\<rparr>]\<rparr>)"
        unfolding p_def by (intro parallel_done_fire) auto
      with 2 show ?thesis by (simp add: pending_envelope_stored)
    qed
  qed
qed

lemma pending_frame:
  "q_tasks s' = q_tasks s \<Longrightarrow> par s' = par s \<Longrightarrow> pending_writes s' = pending_writes s"
  by (simp add: pending_writes_def)

lemma parallel_done_decoder: "decoder (parallel_done k which r s) = decoder s"
  by (cases r) (auto simp: parallel_done_def Let_def envelope_stored_fields)

lemma step_after_finish:
  assumes "protocol s" and "decoder s = Finished" and "step rt ev s = Some s'"
  shows "decoder s' = Finished
       \<and> pending_writes s' + (if is_write ev then 1 else 0) = pending_writes s"
proof (cases ev)
  case (Entry t n)
  with assms show ?thesis by simp
next
  case (Stream_end i r)
  from assms(1,2) have "streams s = []" by (simp add: protocol_def)
  with Stream_end assms show ?thesis by simp
next
  case (Extract_error e)
  with assms show ?thesis by simp
next
  case (Gunzip_error e)
  with assms show ?thesis by simp
next
  case Finish
  with assms show ?thesis by simp
next
  case Process
  with assms have "s' = q_process s" by simp
  with assms(2) show ?thesis
    unfolding Process by (simp add: pending_q_process q_process_decoder)
next
  case (Write_done k which r)
  with assms pending_parallel_done [of k s which r] show ?thesis
    by (auto simp: parallel_done_decoder split: if_splits)
next
  case (Listed r)
  with assms pending_frame [of "listing_done r s" s] show ?thesis
    by (auto simp: listing_done_fields split: recon_state.splits)
next
  case (Removed r)
  with assms pending_frame [of "envelopes_removed r s" s] show ?thesis
    by (auto simp: envelopes_removed_fields split: recon_state.splits)
qed

lemma run_after_finish:
  "request_ok s \<Longrightarrow> decoder s = Finished \<Longrightarrow> run rt evs s = Some s' \<Longrightarrow>
     decoder s' = Finished \<and> pending_writes s' + length (filter is_write evs) = pending_writes s"
proof (induction evs arbitrary: s)
  case Nil
  then show ?case by simp
next
  case (Cons e es)
  then obtain s1 where 1: "step rt e s = Some s1" and 2: "run rt es s1 = Some s'"
    by (auto split: option.splits)
  from Cons.prems(1) have p: "protocol s" by (simp add: request_ok_def)
  from inv_step [OF Cons.prems(1) 1] have i1: "request_ok s1" .
  from step_after_finish [OF p Cons.prems(2) 1] Cons.IH [OF i1 _ 2] show ?case
    by (auto split: if_splits)
qed

lemma member_le_sum: "x \<in> set xs \<Longrightarrow> (f x :: nat) \<le> (\<Sum>y\<leftarrow>xs. f y)"
  by (induction xs) auto

lemma nothing_pending:
  assumes "accounting s" and "pending_writes s = 0"
  shows "q_workers s = 0"
proof (rule ccontr)
  assume "q_workers s \<noteq> 0"
  with assms(1) have "0 < length (filter (\<lambda>p. \<not> called p) (par s))"
    by (simp add: accounting_def)
  from counted_uncalled [OF this] obtain k where k: "k < length (par s)" "\<not> called (par s ! k)"
    by blast
  with assms(1) have "par_ok (par s ! k)"
    by (simp add: accounting_def list_all_length)
  with k have "store_op (par s ! k) = Pending \<or> index_op (par s ! k) = Pending"
    by (simp add: par_ok_def)
  then have "0 < pending_op (store_op (par s ! k)) + pending_op (index_op (par s ! k))"
    by auto
  moreover have "par s ! k \<in> set (par s)" using k by simp
  ultimately have "0 < (\<Sum>p\<leftarrow>par s. pending_op (store_op p) + pending_op (index_op p))"
    using member_le_sum [of "par s ! k" "par s"
        "\<lambda>p. pending_op (store_op p) + pending_op (index_op p)"]
    by arith
  moreover from assms(2)
  have "(\<Sum>p\<leftarrow>par s. pending_op (store_op p) + pending_op (index_op p)) = 0"
    unfolding pending_writes_def by arith
  ultimately show False by arith
qed

lemma worker_can_answer:
  assumes "accounting s" and "0 < q_workers s"
  shows "\<exists>k which. step rt (Write_done k which None) s \<noteq> None"
proof -
  from assms have "0 < length (filter (\<lambda>p. \<not> called p) (par s))"
    by (simp add: accounting_def)
  from counted_uncalled [OF this] obtain k where k: "k < length (par s)" "\<not> called (par s ! k)"
    by blast
  with assms(1) have "par_ok (par s ! k)"
    by (simp add: accounting_def list_all_length)
  with k have "store_op (par s ! k) = Pending \<or> index_op (par s ! k) = Pending"
    by (simp add: par_ok_def)
  then have "get_op Store (par s ! k) = Pending \<or> get_op Index (par s ! k) = Pending"
    by (simp add: get_op_def)
  with k show ?thesis by (metis option.distinct(1) step.simps(7))
qed

lemma fired_when_idle:
  assumes "protocol s" and "decoder s = Finished" and "q_workers s = 0"
  shows "finish_calls s = 1"
  using assms by (auto simp: protocol_def)

lemma error_response_no_report: "is_error_response rs \<Longrightarrow> filter is_report rs = []"
  by (cases rs rule: is_error_response.cases) auto

lemma reports_only: "list_all is_report rs \<Longrightarrow> filter is_report rs = rs"
  by (induction rs) auto

lemma reports_at_most_one:
  assumes "responses_ok s" and "finish_calls s \<le> 1"
  shows "length (filter is_report (sent s)) \<le> 1"
proof (cases "decoder s")
  case Finished
  with assms show ?thesis
    by (cases "recon s") (auto simp: responses_ok_def reports_only)
next
  case Failed
  with assms show ?thesis
    by (simp add: responses_ok_def error_response_no_report)
qed (use assms in \<open>auto simp: responses_ok_def\<close>)

lemma finish_calls_le: "protocol s \<Longrightarrow> finish_calls s \<le> 1"
  by (auto simp: protocol_def split: if_splits)

subsection \<open>Completion\<close>

text \<open>
  In every state that a request can reach, whatever the order of the events,
  \<^verbatim>\<open>finishRequest\<close> has been called at most once and at most one completion report has
  been sent; it has not been called before \<^verbatim>\<open>finish\<close>; it has been called once \<^verbatim>\<open>finish\<close>
  has come and no worker runs; and as long as it has not been called after \<^verbatim>\<open>finish\<close>,
  \<^verbatim>\<open>drain\<close> is armed and a write of a running worker can still answer. Once the writes
  that were outstanding at a state after \<^verbatim>\<open>finish\<close> have all answered, it has been called.
  This counts the calls of \<^verbatim>\<open>finishRequest\<close>, not the reports that follow them.
\<close>

lemma finishRequest_called_once:
  assumes "run rt evs init = Some s"
  shows "finish_calls s \<le> 1
       \<and> length (filter is_report (sent s)) \<le> 1
       \<and> (decoder s \<noteq> Finished \<longrightarrow> finish_calls s = 0)
       \<and> (decoder s = Finished \<and> q_workers s = 0 \<longrightarrow> finish_calls s = 1)
       \<and> (decoder s = Finished \<and> finish_calls s = 0 \<longrightarrow>
             q_drain s = FinishRequest \<and> (\<exists>k which. step rt (Write_done k which None) s \<noteq> None))
       \<and> (\<forall>ws s'. decoder s = Finished \<and> run rt ws s = Some s'
              \<and> length (filter is_write ws) = pending_writes s \<longrightarrow> finish_calls s' = 1)"
proof -
  from assms have i: "request_ok s" by (rule reachable_inv)
  then have acc: "accounting s" and pr: "protocol s" and rs: "responses_ok s"
    by (simp_all add: request_ok_def)
  have 1: "finish_calls s \<le> 1" using pr by (rule finish_calls_le)
  have 2: "length (filter is_report (sent s)) \<le> 1" using rs 1 by (rule reports_at_most_one)
  have 3: "decoder s \<noteq> Finished \<longrightarrow> finish_calls s = 0"
    using pr by (simp add: protocol_def)
  have 4: "decoder s = Finished \<and> q_workers s = 0 \<longrightarrow> finish_calls s = 1"
    using fired_when_idle [OF pr] by blast
  have 5: "decoder s = Finished \<and> finish_calls s = 0 \<longrightarrow>
             q_drain s = FinishRequest \<and> (\<exists>k which. step rt (Write_done k which None) s \<noteq> None)"
  proof
    assume a: "decoder s = Finished \<and> finish_calls s = 0"
    with pr have "q_drain s = FinishRequest" and w: "0 < q_workers s"
      by (auto simp: protocol_def)
    with worker_can_answer [OF acc w, of rt] show
      "q_drain s = FinishRequest \<and> (\<exists>k which. step rt (Write_done k which None) s \<noteq> None)"
      by simp
  qed
  have 6: "\<forall>ws s'. decoder s = Finished \<and> run rt ws s = Some s'
              \<and> length (filter is_write ws) = pending_writes s \<longrightarrow> finish_calls s' = 1"
  proof (intro allI impI)
    fix ws s'
    assume a: "decoder s = Finished \<and> run rt ws s = Some s'
              \<and> length (filter is_write ws) = pending_writes s"
    then have r: "run rt ws s = Some s'" by simp
    from i r have i': "request_ok s'" by (rule inv_run)
    from a run_after_finish [OF i, of rt ws s']
    have d': "decoder s' = Finished" and "pending_writes s' = 0" by auto
    with i' have "q_workers s' = 0"
      by (intro nothing_pending) (simp_all add: request_ok_def)
    with i' d' show "finish_calls s' = 1"
      by (intro fired_when_idle) (simp_all add: request_ok_def)
  qed
  from 1 2 3 4 5 6 show ?thesis by blast
qed

lemma finishRequest_called_once_example:
  "run plain_runtime armed_run init = Some armed_state
   \<and> decoder armed_state = Finished \<and> finish_calls armed_state = 0
   \<and> q_drain armed_state = FinishRequest
   \<and> step plain_runtime (Write_done 0 Index None) armed_state = Some drained_state
   \<and> run plain_runtime [Write_done 0 Index None] armed_state = Some drained_state
   \<and> length (filter is_write [Write_done 0 Index None]) = pending_writes armed_state
   \<and> finish_calls drained_state = 1
   \<and> length (filter is_report (sent drained_state)) = 1
   \<and> run plain_runtime idle_run init = Some idle_state
   \<and> decoder idle_state = Finished \<and> q_workers idle_state = 0
   \<and> finish_calls idle_state = 1"
proof -
  have r: "run plain_runtime armed_run init = Some armed_state"
    by code_simp
  have ri: "run plain_runtime idle_run init = Some idle_state"
    by code_simp
  have ai: "decoder idle_state = Finished" "q_workers idle_state = 0"
    by (simp_all add: idle_state_def)
  from finishRequest_called_once [OF ri] ai have fi: "finish_calls idle_state = 1"
    by blast
  have a: "decoder armed_state = Finished" "finish_calls armed_state = 0"
    "q_drain armed_state = FinishRequest"
    by (simp_all add: armed_state_def)
  have st: "step plain_runtime (Write_done 0 Index None) armed_state = Some drained_state"
    by code_simp
  then have r2: "run plain_runtime [Write_done 0 Index None] armed_state = Some drained_state"
    by simp
  have p: "length (filter is_write [Write_done 0 Index None]) = pending_writes armed_state"
    by (simp add: pending_writes_def armed_state_def)
  have d: "length (filter is_report (sent drained_state)) = 1"
    by (simp add: drained_state_def)
  from finishRequest_called_once [OF r] a r2 p have "finish_calls drained_state = 1"
    by blast
  with r a st r2 p d ri ai fi show ?thesis by blast
qed

lemma stuck_step:
  assumes "decoder s \<noteq> Decoding" and "decoder s = Finished \<or> gunzip_failed s"
    and "streams s = []" and "par s = []" and "q_tasks s = []"
    and "recon s = Not_started \<or> recon s = Recon_done"
  shows "step rt ev s = (if ev = Process then Some s else None)"
proof (cases ev)
  case Process
  with assms show ?thesis by (simp add: q_process_eq started_def)
next
  case (Listed r)
  with assms show ?thesis by auto
next
  case (Removed r)
  with assms show ?thesis by auto
qed (use assms in auto)

text \<open>
  Claim C1. The completion can fail to fire, and it can fire before the queue has
  drained. With a \<^verbatim>\<open>contentIDBase\<close> captured, \<^verbatim>\<open>finish\<close> finds the queue idle and calls
  \<^verbatim>\<open>finishRequest\<close>, the listing ends, and the call of \<^verbatim>\<open>removeEnvelopes\<close> throws: no
  write is outstanding, no response has been sent, and the only event that can still
  happen is the deferred \<^verbatim>\<open>process\<close> of the queue, which changes nothing. Without a
  \<^verbatim>\<open>contentIDBase\<close>, a \<^verbatim>\<open>finish\<close> that comes before the deferred \<^verbatim>\<open>process\<close> has started the
  task of the last record finds \<^verbatim>\<open>running()\<close> at 0: \<^verbatim>\<open>finishRequest\<close> is called and the
  report is sent while the task is still queued.
\<close>

theorem completion_not_reported:
  "run plain_runtime unreported_run init = Some unreported_state
   \<and> decoder unreported_state = Finished
   \<and> finish_calls unreported_state = 1
   \<and> pending_writes unreported_state = 0
   \<and> uncaught unreported_state = [TypeError ''removeEnvelopes is not a function'']
   \<and> sent unreported_state = []
   \<and> (\<forall>ev. step plain_runtime ev unreported_state
            = (if ev = Process then Some unreported_state else None))
   \<and> run plain_runtime premature_run init = Some premature_state
   \<and> decoder premature_state = Finished
   \<and> q_tasks premature_state = [(''a'', sample_envelope)]
   \<and> finish_calls premature_state = 1
   \<and> sent premature_state = [(200, Report 0 0 0)]"
proof -
  have r: "run plain_runtime unreported_run init = Some unreported_state"
    by code_simp
  have p: "run plain_runtime premature_run init = Some premature_state"
    by code_simp
  have s: "\<forall>ev. step plain_runtime ev unreported_state
            = (if ev = Process then Some unreported_state else None)"
    by (intro allI stuck_step) (simp_all add: unreported_state_def gunzip_failed_def)
  have f: "decoder unreported_state = Finished" "finish_calls unreported_state = 1"
    "pending_writes unreported_state = 0"
    "uncaught unreported_state = [TypeError ''removeEnvelopes is not a function'']"
    "sent unreported_state = []"
    by (simp_all add: unreported_state_def pending_writes_def)
  have g: "decoder premature_state = Finished"
    "q_tasks premature_state = [(''a'', sample_envelope)]"
    "finish_calls premature_state = 1" "sent premature_state = [(200, Report 0 0 0)]"
    by (simp_all add: premature_state_def)
  from r p s f g show ?thesis by simp
qed

subsection \<open>Presence in the batch protects from deletion\<close>

lemma kept_add_key: "kept (add_key k ks) k"
  by (auto simp: kept_def add_key_def object_prototype_names_def)

lemma kept_mono: "set ks \<subseteq> set ks' \<Longrightarrow> kept ks k \<Longrightarrow> kept ks' k"
  by (auto simp: kept_def)

lemma envelope_entry_step:
  assumes "step rt (Entry etype entryPath) s = Some s1"
    and "is_envelope_entry rt etype entryPath"
    and "decodeURIComponent rt (basename_ext rt entryPath ''.json'') = Some contentID"
  shows "s1 = s\<lparr>toKeep := add_key contentID (toKeep s),
                streams := streams s @ [(Envelope_stream contentID, entryPath)]\<rparr>"
  using assms
  by (auto simp: is_envelope_entry_def on_entry_def Let_def handleStagingEnvelopeEntry_def
      open_stream_def split: if_splits)

text \<open>
  Claim C2. The entry handler adds the decoded contentID of a content record to
  \<^verbatim>\<open>toKeep\<close> at once: after the step the stream of the entry is still open (the body is
  not parsed yet, nothing has failed and nothing is queued) and the contentID is kept.
  It stays kept in every later state of the request, whatever fails, so it is never in
  the list \<^verbatim>\<open>toDelete\<close> that the reconciliation computes, whatever the store lists.
\<close>

theorem batch_member_never_deleted:
  assumes "step rt (Entry etype entryPath) s = Some s1"
    and "is_envelope_entry rt etype entryPath"
    and "decodeURIComponent rt (basename_ext rt entryPath ''.json'') = Some contentID"
    and "run rt evs s1 = Some s2"
  shows "kept (toKeep s1) contentID
       \<and> streams s1 = streams s @ [(Envelope_stream contentID, entryPath)]
       \<and> failureCount s1 = failureCount s \<and> q_tasks s1 = q_tasks s
       \<and> kept (toKeep s2) contentID
       \<and> contentID \<notin> set (toDelete_of existingContentIDs (toKeep s2))"
proof -
  from envelope_entry_step [OF assms(1-3)]
  have s1: "s1 = s\<lparr>toKeep := add_key contentID (toKeep s),
                streams := streams s @ [(Envelope_stream contentID, entryPath)]\<rparr>" .
  then have k1: "kept (toKeep s1) contentID" by (simp add: kept_add_key)
  from run_toKeep [OF assms(4)] k1 have k2: "kept (toKeep s2) contentID"
    by (rule kept_mono)
  then have "contentID \<notin> set (toDelete_of existingContentIDs (toKeep s2))"
    by (simp add: toDelete_of_def)
  with s1 k1 k2 show ?thesis by simp
qed

theorem batch_member_never_deleted_witness:
  "step plain_runtime (Entry ''file'' ''a.json'') init = Some entered_state
   \<and> is_envelope_entry plain_runtime ''file'' ''a.json''
   \<and> decodeURIComponent plain_runtime (basename_ext plain_runtime ''a.json'' ''.json'') = Some ''a''
   \<and> run plain_runtime parse_failure_run entered_state = Some parse_failed_state
   \<and> failureCount parse_failed_state = 1
   \<and> kept (toKeep entered_state) ''a''
   \<and> kept (toKeep parse_failed_state) ''a''
   \<and> ''a'' \<notin> set (toDelete_of [''a'', ''b''] (toKeep parse_failed_state))"
proof -
  have e: "step plain_runtime (Entry ''file'' ''a.json'') init = Some entered_state"
    by code_simp
  have i: "is_envelope_entry plain_runtime ''file'' ''a.json''"
    by code_simp
  have d: "decodeURIComponent plain_runtime (basename_ext plain_runtime ''a.json'' ''.json'') = Some ''a''"
    by code_simp
  have r: "run plain_runtime parse_failure_run entered_state = Some parse_failed_state"
    by code_simp
  have f: "failureCount parse_failed_state = 1"
    by (simp add: parse_failed_state_def)
  from batch_member_never_deleted [OF e i d r, of "[''a'', ''b'']"] e i d r f
  show ?thesis by blast
qed

subsection \<open>One task, two writes\<close>

text \<open>
  The claim C3, as it is written, fails: the write to the document store fails while
  the write to the index has not answered, and the failure is counted and the worker
  released at once.
\<close>

theorem outcome_before_second_write:
  "run plain_runtime running_run init = Some running_state
   \<and> step plain_runtime (Write_done 0 Store (Some (mk_error ''store''))) running_state
       = Some store_failed_state
   \<and> called (par store_failed_state ! 0)
   \<and> index_op (par store_failed_state ! 0) = Pending
   \<and> failureCount store_failed_state = 1
   \<and> q_workers store_failed_state = 0"
  by code_simp

lemma nth_updated_front: "k < length xs \<Longrightarrow> (xs[k := y] @ ys) ! k = y"
  by (simp add: nth_append)

text \<open>
  Claim C3, amended. \<^verbatim>\<open>storeStagingEnvelope\<close> starts both writes. An answer that comes
  after the outcome has been reported changes no counter. Otherwise the outcome is
  reported when a write fails or when the last write answers, and not before; the task
  is stored and indexed exactly when both writes have succeeded, and \<^verbatim>\<open>envelopeCount\<close>
  goes up by one exactly then; a failure adds one to \<^verbatim>\<open>failureCount\<close> and starts a
  waiting task if there is one. \<^verbatim>\<open>envelopeCount\<close> is the number of stored and indexed
  tasks.
\<close>

theorem write_outcome_reported_once:
  assumes "run rt evs init = Some s"
    and "step rt (Write_done k which r) s = Some s'"
  shows "store_op (storeStagingEnvelope t) = Pending \<and> index_op (storeStagingEnvelope t) = Pending
       \<and> (called (par s ! k) \<longrightarrow>
             envelopeCount s' = envelopeCount s \<and> failureCount s' = failureCount s)
       \<and> (\<not> called (par s ! k) \<longrightarrow>
             (called (par s' ! k) \<longleftrightarrow> r \<noteq> None \<or> other_op which (par s ! k) \<noteq> Pending)
           \<and> (both_ok (par s' ! k) \<longleftrightarrow> r = None \<and> other_op which (par s ! k) \<noteq> Pending)
           \<and> envelopeCount s' = envelopeCount s + (if both_ok (par s' ! k) then 1 else 0)
           \<and> failureCount s' = failureCount s + (if r \<noteq> None then 1 else 0)
           \<and> (r \<noteq> None \<and> q_tasks s \<noteq> [] \<longrightarrow> length (q_tasks s') < length (q_tasks s)))
       \<and> envelopeCount s' = accepted_tasks s'"
proof -
  from assms(1) have i: "request_ok s" by (rule reachable_inv)
  then have acc: "accounting s" by (simp add: request_ok_def)
  from inv_step [OF i assms(2)] have acc': "accounting s'" by (simp add: request_ok_def)
  from assms(2) have k: "k < length (par s)" and pend: "get_op which (par s ! k) = Pending"
    and s': "s' = parallel_done k which r s"
    by (auto split: if_splits)
  define p where "p = par s ! k"
  have pok: "par_ok p"
    using acc k unfolding p_def accounting_def by (simp add: list_all_length)
  have 1: "store_op (storeStagingEnvelope t) = Pending \<and> index_op (storeStagingEnvelope t) = Pending"
    by (simp add: storeStagingEnvelope_def)
  have 2: "called p \<longrightarrow> envelopeCount s' = envelopeCount s \<and> failureCount s' = failureCount s"
    by (simp add: s' p_def parallel_done_late)
  have 3: "\<not> called p \<longrightarrow>
             (called (par s' ! k) \<longleftrightarrow> r \<noteq> None \<or> other_op which p \<noteq> Pending)
           \<and> (both_ok (par s' ! k) \<longleftrightarrow> r = None \<and> other_op which p \<noteq> Pending)
           \<and> envelopeCount s' = envelopeCount s + (if both_ok (par s' ! k) then 1 else 0)
           \<and> failureCount s' = failureCount s + (if r \<noteq> None then 1 else 0)
           \<and> (r \<noteq> None \<and> q_tasks s \<noteq> [] \<longrightarrow> length (q_tasks s') < length (q_tasks s))"
  proof
    assume unc: "\<not> called p"
    show "(called (par s' ! k) \<longleftrightarrow> r \<noteq> None \<or> other_op which p \<noteq> Pending)
           \<and> (both_ok (par s' ! k) \<longleftrightarrow> r = None \<and> other_op which p \<noteq> Pending)
           \<and> envelopeCount s' = envelopeCount s + (if both_ok (par s' ! k) then 1 else 0)
           \<and> failureCount s' = failureCount s + (if r \<noteq> None then 1 else 0)
           \<and> (r \<noteq> None \<and> q_tasks s \<noteq> [] \<longrightarrow> length (q_tasks s') < length (q_tasks s))"
    proof (cases "r = None \<and> other_op which p = Pending")
      case True
      with unc have eq: "s' = s\<lparr>par := (par s)[k := set_op which None p]\<rparr>"
        unfolding s' p_def by (simp add: parallel_done_wait)
      from set_op_wait [OF pok unc, of which] True k unc show ?thesis
        unfolding eq by simp
    next
      case fire: False
      define p2 where "p2 = (set_op which r p)\<lparr>called := True\<rparr>"
      from unc fire have eq: "s' = envelope_stored r (s\<lparr>par := (par s)[k := p2]\<rparr>)"
        unfolding s' p_def p2_def by (intro parallel_done_fire) auto
      have nth: "par s' ! k = p2"
        unfolding eq using k by (simp add: envelope_stored_fields nth_updated_front)
      from set_op_fire [OF pok unc, of which r] pend fire
      have b: "both_ok p2 \<longleftrightarrow> r = None" by (simp add: p_def p2_def)
      have c: "called p2" by (simp add: p2_def)
      have wpos: "0 < q_workers s" and wb: "q_workers s \<le> concurrency"
        using acc uncalled_counted [OF k] unc by (simp_all add: accounting_def p_def)
      then have lt: "q_workers s - 1 < concurrency" using concurrency_pos by arith
      have more: "q_tasks s \<noteq> [] \<longrightarrow> length (q_tasks s') < length (q_tasks s)"
      proof
        assume ne: "q_tasks s \<noteq> []"
        from started_pos [OF ne lt] ne show "length (q_tasks s') < length (q_tasks s)"
          unfolding eq by (simp add: envelope_stored_fields)
      qed
      from fire b c more show ?thesis
        unfolding nth by (auto simp: eq envelope_stored_fields)
    qed
  qed
  have 4: "envelopeCount s' = accepted_tasks s'"
    using acc' by (simp add: accounting_def)
  from 1 2 3 4 show ?thesis unfolding p_def by blast
qed

theorem write_outcome_reported_once_witness:
  "run plain_runtime running_run init = Some running_state
   \<and> step plain_runtime (Write_done 0 Store (Some (mk_error ''store''))) running_state
       = Some store_failed_state
   \<and> \<not> called (par running_state ! 0)
   \<and> called (par store_failed_state ! 0)
   \<and> \<not> both_ok (par store_failed_state ! 0)
   \<and> envelopeCount store_failed_state = envelopeCount running_state
   \<and> failureCount store_failed_state = failureCount running_state + 1"
proof -
  have r: "run plain_runtime running_run init = Some running_state"
    by code_simp
  have st: "step plain_runtime (Write_done 0 Store (Some (mk_error ''store''))) running_state
       = Some store_failed_state"
    by code_simp
  have u: "\<not> called (par running_state ! 0)"
    by (simp add: running_state_def)
  have o: "\<not> both_ok (par store_failed_state ! 0)"
    by (simp add: store_failed_state_def both_ok_def)
  from write_outcome_reported_once [OF r st] r st u o show ?thesis by auto
qed

subsection \<open>The responses\<close>

lemma parallel_done_sent:
  assumes "k < length (par s)"
  shows "sent (parallel_done k which r s) = sent s
       \<or> sent (parallel_done k which r s) =
           sent s @ [(if failureCount (parallel_done k which r s) = 0 then 200 else 500,
                      Report (envelopeCount (parallel_done k which r s))
                        (failureCount (parallel_done k which r s))
                        (deletionCount (parallel_done k which r s)))]"
proof (cases "called (par s ! k)")
  case True
  then show ?thesis by (simp add: parallel_done_late)
next
  case False
  show ?thesis
  proof (cases "r = None \<and> other_op which (par s ! k) = Pending")
    case True
    with False show ?thesis by (simp add: parallel_done_wait)
  next
    case fire: False
    with False have eq: "parallel_done k which r s
        = envelope_stored r (s\<lparr>par := (par s)[k := (set_op which r (par s ! k))\<lparr>called := True\<rparr>]\<rparr>)"
      by (intro parallel_done_fire) auto
    show ?thesis
      unfolding eq by (simp add: envelope_stored_sent envelope_stored_fields)
  qed
qed

lemma step_sent:
  assumes "step rt ev s = Some s'"
  shows "sent s' = sent s
       \<or> (\<exists>e. ev = Extract_error e \<and> sent s' = sent s @ [(400, Error_body e)])
       \<or> (\<not> is_extract_error ev
           \<and> sent s' = sent s @ [(if failureCount s' = 0 then 200 else 500,
                                  Report (envelopeCount s') (failureCount s') (deletionCount s'))])"
proof (cases ev)
  case (Entry t n)
  with assms show ?thesis by (auto simp: on_entry_fields split: if_splits)
next
  case (Stream_end i r)
  with assms on_stream_end_quiet [where s = s and i = i and r = r and rt = rt] show ?thesis
    by (auto simp: quiet_def split: if_splits)
next
  case (Extract_error e)
  with assms show ?thesis by (auto simp: on_error_def split: if_splits)
next
  case (Gunzip_error e)
  with assms show ?thesis by (auto simp: on_gunzip_error_def split: if_splits)
next
  case Finish
  with assms show ?thesis
    by (auto simp: on_finish_def Let_def finishRequest_fields split: if_splits)
next
  case Process
  with assms show ?thesis by (auto simp: q_process_eq)
next
  case (Write_done k which r)
  with assms parallel_done_sent [of k s which r] show ?thesis
    by (auto split: if_splits)
next
  case (Listed r)
  with assms show ?thesis
    by (cases r) (auto simp: listing_done_fields listing_done_sent split: recon_state.splits)
next
  case (Removed r)
  with assms show ?thesis
    by (auto simp: envelopes_removed_fields split: recon_state.splits)
qed

text \<open>
  \<^verbatim>\<open>envelopeCount\<close> is the number of records stored and indexed so far. A step of a
  request sends nothing, or, on an error of the decoder, status 400 with the error, or
  one completion report \<^verbatim>\<open>{accepted, failed, deleted}\<close> whose \<^verbatim>\<open>accepted\<close> is that number
  when the report is sent and whose status is 200 when \<^verbatim>\<open>failureCount\<close> is 0 and 500
  otherwise. After an error of the decoder the 400 is the only response.
\<close>

lemma step_responses:
  assumes "run rt evs init = Some s" and "step rt ev s = Some s'"
  shows "envelopeCount s' = accepted_tasks s'
       \<and> (new_responses s s' = []
          \<or> (\<exists>e. ev = Extract_error e \<and> new_responses s s' = [(400, Error_body e)])
          \<or> (\<not> is_extract_error ev \<and> new_responses s s' = [completion_report s']))
       \<and> (decoder s' = Failed \<longrightarrow>
             is_error_response (sent s') \<and> filter is_report (sent s') = [])"
proof -
  from assms(1) have "request_ok s" by (rule reachable_inv)
  from inv_step [OF this assms(2)] have i': "request_ok s'" .
  then have e: "envelopeCount s' = accepted_tasks s'"
    by (simp add: request_ok_def accounting_def)
  have f: "decoder s' = Failed \<longrightarrow> is_error_response (sent s') \<and> filter is_report (sent s') = []"
    using i' by (auto simp: request_ok_def responses_ok_def error_response_no_report)
  from step_sent [OF assms(2)] e
  have "new_responses s s' = []
          \<or> (\<exists>e. ev = Extract_error e \<and> new_responses s s' = [(400, Error_body e)])
          \<or> (\<not> is_extract_error ev \<and> new_responses s s' = [completion_report s'])"
    by (auto simp: new_responses_def completion_report_def)
  with e f show ?thesis by blast
qed

lemma step_responses_example:
  "run plain_runtime armed_run init = Some armed_state
   \<and> step plain_runtime (Write_done 0 Index None) armed_state = Some drained_state
   \<and> new_responses armed_state drained_state = [completion_report drained_state]
   \<and> completion_report drained_state = (200, Report 1 0 0)
   \<and> envelopeCount drained_state = accepted_tasks drained_state
   \<and> run plain_runtime [Entry ''file'' ''a.json''] init = Some entered_state
   \<and> step plain_runtime (Extract_error (mk_error ''Invalid tar header'')) entered_state
       = Some malformed_state
   \<and> decoder malformed_state = Failed
   \<and> is_error_response (sent malformed_state)
   \<and> filter is_report (sent malformed_state) = []"
proof -
  have re: "run plain_runtime [Entry ''file'' ''a.json''] init = Some entered_state"
    by code_simp
  have se: "step plain_runtime (Extract_error (mk_error ''Invalid tar header'')) entered_state
       = Some malformed_state"
    by code_simp
  have de: "decoder malformed_state = Failed"
    by (simp add: malformed_state_def)
  from step_responses [OF re se] de
  have me: "is_error_response (sent malformed_state)"
    "filter is_report (sent malformed_state) = []"
    by blast+
  have r: "run plain_runtime armed_run init = Some armed_state"
    by code_simp
  have st: "step plain_runtime (Write_done 0 Index None) armed_state = Some drained_state"
    by code_simp
  have n: "new_responses armed_state drained_state = [(200, Report 1 0 0)]"
    by (simp add: new_responses_def armed_state_def drained_state_def)
  have c: "completion_report drained_state = (200, Report 1 0 0)"
    by (simp add: completion_report_def drained_state_def accepted_tasks_def both_ok_def)
  from step_responses [OF r st] r st n c re se de me show ?thesis by simp
qed

text \<open>
  Claim C4. A body that is not gzip data is not answered with status 400: the error
  of the gunzip stream has no listener, so it is thrown, nothing is sent, and no event
  of the request but the deferred \<^verbatim>\<open>process\<close> of the queue, which changes nothing, can
  follow. And \<^verbatim>\<open>accepted\<close> is not always the number of records stored and indexed: when
  \<^verbatim>\<open>finish\<close> comes before the queue has started the task of \<^verbatim>\<open>a.json\<close>, the report says
  \<^verbatim>\<open>accepted: 0\<close> with status 200, and the record is stored and indexed afterwards.
\<close>

theorem gunzip_error_unanswered:
  "run plain_runtime [Gunzip_error (mk_error ''incorrect header check'')] init
     = Some gunzip_failed_state
   \<and> uncaught gunzip_failed_state = [Unhandled_error (mk_error ''incorrect header check'')]
   \<and> sent gunzip_failed_state = []
   \<and> (\<forall>ev. step plain_runtime ev gunzip_failed_state
            = (if ev = Process then Some gunzip_failed_state else None))
   \<and> run plain_runtime premature_run init = Some premature_state
   \<and> sent premature_state = [(200, Report 0 0 0)]
   \<and> accepted_tasks premature_state = 0
   \<and> run plain_runtime late_store_run premature_state = Some stored_late_state
   \<and> accepted_tasks stored_late_state = 1
   \<and> envelopeCount stored_late_state = 1
   \<and> sent stored_late_state = [(200, Report 0 0 0)]"
proof -
  have r: "run plain_runtime [Gunzip_error (mk_error ''incorrect header check'')] init
     = Some gunzip_failed_state"
    by code_simp
  have s: "\<forall>ev. step plain_runtime ev gunzip_failed_state
            = (if ev = Process then Some gunzip_failed_state else None)"
    by (intro allI stuck_step) (simp_all add: gunzip_failed_state_def gunzip_failed_def)
  have p: "run plain_runtime premature_run init = Some premature_state"
    by code_simp
  have l: "run plain_runtime late_store_run premature_state = Some stored_late_state"
    by code_simp
  have f: "uncaught gunzip_failed_state = [Unhandled_error (mk_error ''incorrect header check'')]"
    "sent gunzip_failed_state = []"
    by (simp_all add: gunzip_failed_state_def)
  have g: "sent premature_state = [(200, Report 0 0 0)]" "accepted_tasks premature_state = 0"
    by (simp_all add: premature_state_def accepted_tasks_def)
  have h: "accepted_tasks stored_late_state = 1" "envelopeCount stored_late_state = 1"
    "sent stored_late_state = [(200, Report 0 0 0)]"
    by (simp_all add: stored_late_state_def accepted_tasks_def both_ok_def)
  from r s p l f g h show ?thesis by simp
qed

subsection \<open>The reconciliation with a contentIDBase\<close>

text \<open>
  Claim C5. With a \<^verbatim>\<open>contentIDBase\<close> captured, the handler lists the store and computes
  \<^verbatim>\<open>toDelete\<close> (here \<^verbatim>\<open>Xc\<close>), but the call of \<^verbatim>\<open>removeEnvelopes\<close> throws: \<^verbatim>\<open>remove.js\<close>
  exports no such name. No removal is started and no response is sent.
\<close>

theorem reconciliation_throws:
  "run plain_runtime reconciling_run init = Some reconciling_state
   \<and> toDelete_of [''Xa'', ''Xb'', ''Xc''] (toKeep reconciling_state) = [''Xc'']
   \<and> deletionCount reconciling_state = 1
   \<and> uncaught reconciling_state = [TypeError ''removeEnvelopes is not a function'']
   \<and> recon reconciling_state = Recon_done
   \<and> sent reconciling_state = []
   \<and> step plain_runtime (Removed None) reconciling_state = None"
  by code_simp

end
